theory Spec2Isabelle
  imports Main "HOL-Library.Word" "HOL-Library.Multiset"
begin

unbundle bit_operations_syntax

section \<open>Machine integers\<close>

text \<open>
  The C \<open>int\<close> is 32 bits wide and \<open>long\<close>, \<open>long long\<close> are 64 bits wide on the
  platforms the module builds for. Values are kept as \<open>int\<close> and the conversion to the
  narrower type is written out as two's complement wrap-around.
\<close>

definition to_int32 :: "int \<Rightarrow> int" where
  "to_int32 x = (x + 2 ^ 31) mod 2 ^ 32 - 2 ^ 31"

definition to_int64 :: "int \<Rightarrow> int" where
  "to_int64 x = (x + 2 ^ 63) mod 2 ^ 64 - 2 ^ 63"

section \<open>Thread pool registry (concurrent\_ctx.c)\<close>

text \<open>
  \<open>RSGlobalConfig\<close> is declared outside the two files; the three fields read by
  \<open>ConcurrentSearch_ThreadPoolStart\<close> are taken as a record.
\<close>

record RSConfig =
  searchPoolSize :: int
  indexPoolSize :: int
  poolSizeNoAuto :: bool

text \<open>
  Modelled from the spec: the thread pool library (dep/thpool) is not among the source
  files. A pool handle is an opaque reference to one worker pool with a fixed thread
  count: a pool is represented by the thread count \<open>thpool_init\<close> was given.
\<close>

datatype threadpool = thpool_init int

text \<open>
  The three globals of concurrent\_ctx.c. \<open>threadpools_g\<close> is \<open>NULL\<close> (\<open>None\<close>) until
  the first pool is created.
\<close>

record pool_globals =
  threadpools_g :: "threadpool list option"
  CONCURRENT_POOL_INDEX :: int
  CONCURRENT_POOL_SEARCH :: int

definition pool_globals_init :: pool_globals where
  "pool_globals_init =
     \<lparr>threadpools_g = None, CONCURRENT_POOL_INDEX = - 1, CONCURRENT_POOL_SEARCH = - 1\<rparr>"

text \<open>
  The registry is a growable array (util/arr.h): \<open>array_append\<close> adds at the end.
  \<open>array_len\<close> yields an unsigned 32-bit length which is stored in an \<open>int\<close>; the
  argument of \<open>thpool_init\<close> is an \<open>int\<close> as well.
\<close>

definition ConcurrentSearch_CreatePool :: "int \<Rightarrow> pool_globals \<Rightarrow> int \<times> pool_globals" where
  "ConcurrentSearch_CreatePool numThreads g =
     (let arr = (case threadpools_g g of None \<Rightarrow> [] | Some a \<Rightarrow> a);
          poolId = to_int32 (int (length arr))
      in (poolId, g\<lparr>threadpools_g := Some (arr @ [thpool_init (to_int32 numThreads)])\<rparr>))"

text \<open>
  \<open>nprocs\<close> is what \<open>sysconf(_SC_NPROCESSORS_ONLN)\<close> returns when it is called.
\<close>

definition ConcurrentSearch_ThreadPoolStart :: "RSConfig \<Rightarrow> int \<Rightarrow> pool_globals \<Rightarrow> pool_globals" where
  "ConcurrentSearch_ThreadPoolStart cfg nprocs g =
     (if CONCURRENT_POOL_SEARCH g = - 1 then
        (let (sid, g1) = ConcurrentSearch_CreatePool (searchPoolSize cfg) g;
             g2 = g1\<lparr>CONCURRENT_POOL_SEARCH := sid\<rparr>;
             numProcs = (if \<not> poolSizeNoAuto cfg then nprocs else 0);
             numProcs' = (if numProcs < 1 then indexPoolSize cfg else numProcs);
             (iid, g3) = ConcurrentSearch_CreatePool numProcs' g2
         in g3\<lparr>CONCURRENT_POOL_INDEX := iid\<rparr>)
      else g)"

section \<open>SearchContext: cooperative yielding (concurrent\_ctx.c)\<close>

text \<open>
  Pointers are addresses, \<open>NULL\<close> is address 0. A key handle (\<open>RedisModuleKey *\<close>), a
  callback, its private data and the host context are each known by their address only.
  Key names are the strings the \<open>RedisModuleString\<close> holds.
\<close>

type_synonym ptr = nat

abbreviation (input) NULL :: ptr where
  "NULL \<equiv> 0"

text \<open>
  Modelled from the spec: the header concurrent\_ctx.h, which declares the per-entry
  options, is not among the source files. \<open>ConcurrentKey_SharedKey\<close> is the spec's
  \<open>SHARED_HANDLE\<close>, one of the two boolean options of a tracked entry, kept as one
  bit of \<open>opts\<close>.
\<close>

definition ConcurrentKey_SharedKey :: "32 word" where
  "ConcurrentKey_SharedKey = 2"

text \<open>
  Modelled from the spec: the header concurrent\_ctx.h, which defines the time budget, is
  not among the source files. The spec gives the budget as 100 ms, that is 10^8 ns.
\<close>

definition CONCURRENT_TIMEOUT_NS :: int where
  "CONCURRENT_TIMEOUT_NS = 100000000"

record ConcurrentKeyCtx =
  key :: ptr
  keyName :: string
  keyFlags :: int
  cb :: ptr
  privdata :: ptr
  freePrivData :: ptr
  opts :: "32 word"

record timespec =
  tv_sec :: int
  tv_nsec :: int

text \<open>
  \<open>numOpenKeys\<close> is the length of \<open>openKeys\<close>: the two fields change together in
  \<open>ConcurrentSearch_AddKey\<close> and the initialisers.
\<close>

record ConcurrentSearchCtx =
  ctx :: ptr
  isLocked :: int
  openKeys :: "ConcurrentKeyCtx list"
  lastTime :: timespec
  ticker :: int

text \<open>
  What the context does to the host is recorded as a trace of calls, oldest first.
  \<open>HostOpenKey\<close> carries the handle the host returned and \<open>ReopenCallback\<close> the
  arguments \<open>cb\<close> was called with.
\<close>

datatype host_call =
    ThreadSafeContextLock ptr
  | ThreadSafeContextUnlock ptr
  | HostCloseKey ptr
  | HostOpenKey ptr string int ptr
  | ReopenCallback ptr ptr ptr

type_synonym host = "host_call list"

text \<open>
  \<open>RedisModule_OpenKey\<close> is the host's: the handle it returns is given by a function
  of the calls made so far, the context, the key name and the mode.
\<close>

type_synonym open_key = "host \<Rightarrow> ptr \<Rightarrow> string \<Rightarrow> int \<Rightarrow> ptr"

datatype error = AssertionFailed

fun CloseKeys_loop :: "ConcurrentKeyCtx list \<Rightarrow> host \<Rightarrow> host" where
  "CloseKeys_loop [] h = h"
| "CloseKeys_loop (kx # kxs) h =
     (if key kx \<noteq> NULL \<and> opts kx AND ConcurrentKey_SharedKey = 0
      then CloseKeys_loop kxs (h @ [HostCloseKey (key kx)])
      else CloseKeys_loop kxs h)"

definition ConcurrentSearch_CloseKeys :: "ConcurrentSearchCtx \<Rightarrow> host \<Rightarrow> host" where
  "ConcurrentSearch_CloseKeys c h = CloseKeys_loop (openKeys c) h"

fun ReopenKeys_loop ::
  "open_key \<Rightarrow> ptr \<Rightarrow> ConcurrentKeyCtx list \<Rightarrow> host \<Rightarrow> ConcurrentKeyCtx list \<times> host" where
  "ReopenKeys_loop ok rctx [] h = ([], h)"
| "ReopenKeys_loop ok rctx (kx # kxs) h =
     (let k = ok h rctx (keyName kx) (keyFlags kx);
          kx' = kx\<lparr>key := k, opts := opts kx AND NOT ConcurrentKey_SharedKey\<rparr>;
          h' = h @ [HostOpenKey rctx (keyName kx) (keyFlags kx) k,
                    ReopenCallback (cb kx) k (privdata kx)];
          (kxs', h'') = ReopenKeys_loop ok rctx kxs h'
      in (kx' # kxs', h''))"

definition ConcurrentSearchCtx_ReopenKeys ::
  "open_key \<Rightarrow> ConcurrentSearchCtx \<times> host \<Rightarrow> ConcurrentSearchCtx \<times> host" where
  "ConcurrentSearchCtx_ReopenKeys ok = (\<lambda>(c, h).
     (let (kxs, h') = ReopenKeys_loop ok (ctx c) (openKeys c) h
      in (c\<lparr>openKeys := kxs\<rparr>, h')))"

definition ConcurrentSearchCtx_ResetClock :: "timespec \<Rightarrow> ConcurrentSearchCtx \<Rightarrow> ConcurrentSearchCtx" where
  "ConcurrentSearchCtx_ResetClock now c = c\<lparr>lastTime := now, ticker := 0\<rparr>"

definition ConcurrentSearchCtx_Lock ::
  "open_key \<Rightarrow> ConcurrentSearchCtx \<times> host \<Rightarrow> error + ConcurrentSearchCtx \<times> host" where
  "ConcurrentSearchCtx_Lock ok = (\<lambda>(c, h).
     if isLocked c \<noteq> 0 then Inl AssertionFailed
     else Inr (ConcurrentSearchCtx_ReopenKeys ok
                 (c\<lparr>isLocked := 1\<rparr>, h @ [ThreadSafeContextLock (ctx c)])))"

definition ConcurrentSearchCtx_Unlock ::
  "ConcurrentSearchCtx \<times> host \<Rightarrow> ConcurrentSearchCtx \<times> host" where
  "ConcurrentSearchCtx_Unlock = (\<lambda>(c, h).
     (c\<lparr>isLocked := 0\<rparr>, ConcurrentSearch_CloseKeys c h @ [ThreadSafeContextUnlock (ctx c)]))"

text \<open>
  \<open>now\<close> is the reading of the monotonic clock at entry, \<open>now'\<close> the later reading
  taken by \<open>ConcurrentSearchCtx_ResetClock\<close>. The arithmetic is that of \<open>long\<close> and
  \<open>long long\<close>.
\<close>

definition durationNS :: "timespec \<Rightarrow> timespec \<Rightarrow> int" where
  "durationNS now lastT =
     to_int64 (to_int64 (1000000000 * to_int64 (tv_sec now - tv_sec lastT))
               + to_int64 (tv_nsec now - tv_nsec lastT))"

definition ConcurrentSearch_CheckTimer ::
  "open_key \<Rightarrow> timespec \<Rightarrow> timespec \<Rightarrow> ConcurrentSearchCtx \<times> host
     \<Rightarrow> error + int \<times> ConcurrentSearchCtx \<times> host" where
  "ConcurrentSearch_CheckTimer ok now now' = (\<lambda>(c, h).
     if durationNS now (lastTime c) > CONCURRENT_TIMEOUT_NS then
       (case ConcurrentSearchCtx_Lock ok (ConcurrentSearchCtx_Unlock (c, h)) of
          Inl e \<Rightarrow> Inl e
        | Inr (c', h') \<Rightarrow> Inr (1, ConcurrentSearchCtx_ResetClock now' c', h'))
     else Inr (0, c, h))"

text \<open>
  The vocabulary of the statements about the SearchContext: the two host calls one entry
  causes when it is reopened, a clock reading that is a proper \<open>timespec\<close> (below
  2^33 seconds, so that the 64-bit arithmetic of \<open>durationNS\<close> stays in range), the
  elapsed time as a number, and the trace entries that are callback invocations.
\<close>

definition reopen_calls :: "ptr \<Rightarrow> ConcurrentKeyCtx \<Rightarrow> host_call list" where
  "reopen_calls rctx kx =
     [HostOpenKey rctx (keyName kx) (keyFlags kx) (key kx),
      ReopenCallback (cb kx) (key kx) (privdata kx)]"

definition valid_timespec :: "timespec \<Rightarrow> bool" where
  "valid_timespec t =
     (0 \<le> tv_sec t \<and> tv_sec t < 2 ^ 33 \<and> 0 \<le> tv_nsec t \<and> tv_nsec t < 1000000000)"

definition elapsed_ns :: "timespec \<Rightarrow> timespec \<Rightarrow> int" where
  "elapsed_ns now lastT =
     1000000000 * (tv_sec now - tv_sec lastT) + (tv_nsec now - tv_nsec lastT)"

fun is_ReopenCallback :: "host_call \<Rightarrow> bool" where
  "is_ReopenCallback (ReopenCallback f k p) = True"
| "is_ReopenCallback _ = False"

text \<open>
  A context for the examples: two tracked keys, the first owned (handle 5), the second
  shared (handle 6), and a host that hands out a handle numbered after the calls made
  so far.
\<close>

definition example_keys :: "ConcurrentKeyCtx list" where
  "example_keys =
     [\<lparr>key = 5, keyName = ''x'', keyFlags = 1, cb = 11, privdata = 12, freePrivData = NULL,
       opts = 0\<rparr>,
      \<lparr>key = 6, keyName = ''y'', keyFlags = 1, cb = 13, privdata = 14, freePrivData = NULL,
       opts = 2\<rparr>]"

definition example_ctx :: "int \<Rightarrow> ConcurrentSearchCtx" where
  "example_ctx locked =
     \<lparr>ctx = 1, isLocked = locked, openKeys = example_keys,
      lastTime = \<lparr>tv_sec = 7, tv_nsec = 900000000\<rparr>, ticker = 3\<rparr>"

definition example_open_key :: open_key where
  "example_open_key h rctx name mode = Suc (length h)"

text \<open>
  A context in which one handle is tracked twice: by a shared entry and by an owned
  entry.
\<close>

definition alias_ctx :: ConcurrentSearchCtx where
  "alias_ctx =
     \<lparr>ctx = 1, isLocked = 1,
      openKeys =
        [\<lparr>key = 9, keyName = ''z'', keyFlags = 1, cb = 11, privdata = 12, freePrivData = NULL,
          opts = 2\<rparr>,
         \<lparr>key = 9, keyName = ''z'', keyFlags = 1, cb = 13, privdata = 14, freePrivData = NULL,
          opts = 0\<rparr>],
      lastTime = \<lparr>tv_sec = 7, tv_nsec = 900000000\<rparr>, ticker = 3\<rparr>"

section \<open>Blocked-command dispatcher (concurrent\_ctx.c)\<close>

text \<open>
  The dispatcher works on objects of the host and of the C heap: string objects
  (\<open>RedisModuleString\<close>), argument vectors (arrays of pointers to strings),
  \<open>ConcurrentCmdCtx\<close> blocks, blocked-client tokens and thread-safe contexts. Each
  lives at an address in an explicit store, so that two vectors or two strings with the
  same contents are still two objects. \<open>brk\<close> is the next address the allocators hand
  out; \<open>work\<close> is the queue of each pool, holding the arguments queued for
  \<open>threadHandleCommand\<close>.
\<close>

record RedisModuleString =
  str_bytes :: string
  str_owner :: ptr

record ThreadSafeContext =
  of_client :: ptr
  auto_memory :: bool

record ConcurrentCmdCtx =
  bc :: ptr
  cmd_ctx :: ptr
  handler :: ptr
  argv :: ptr
  argc :: int
  options :: "32 word"

record dispatch_state =
  strings :: "ptr \<rightharpoonup> RedisModuleString"
  vectors :: "ptr \<rightharpoonup> ptr list"
  cmds :: "ptr \<rightharpoonup> ConcurrentCmdCtx"
  contexts :: "ptr \<rightharpoonup> ThreadSafeContext"
  blocked :: "ptr list"
  work :: "int \<Rightarrow> ptr list"
  brk :: ptr

datatype access_error = InvalidAccess

abbreviation (input) REDISMODULE_OK :: int where
  "REDISMODULE_OK \<equiv> 0"

text \<open>
  The allocators and the host calls the dispatcher uses. They are libc's and the
  host's; each one that creates an object returns a fresh address. \<open>calloc\<close> of a
  negative count (a huge \<open>size_t\<close>) fails with \<open>NULL\<close>; of zero elements it returns
  a fresh empty block.
\<close>

definition alloc :: "dispatch_state \<Rightarrow> ptr \<times> dispatch_state" where
  "alloc st = (brk st, st\<lparr>brk := Suc (brk st)\<rparr>)"

definition calloc_vector :: "int \<Rightarrow> dispatch_state \<Rightarrow> ptr \<times> dispatch_state" where
  "calloc_vector n st =
     (if n < 0 then (NULL, st)
      else (let (v, st1) = alloc st
            in (v, st1\<lparr>vectors := (vectors st1)(v \<mapsto> replicate (nat n) NULL)\<rparr>)))"

definition RedisModule_BlockClient :: "ptr \<Rightarrow> dispatch_state \<Rightarrow> ptr \<times> dispatch_state" where
  "RedisModule_BlockClient rctx st =
     (let (b, st1) = alloc st in (b, st1\<lparr>blocked := blocked st1 @ [b]\<rparr>))"

definition RedisModule_GetThreadSafeContext :: "ptr \<Rightarrow> dispatch_state \<Rightarrow> ptr \<times> dispatch_state" where
  "RedisModule_GetThreadSafeContext b st =
     (let (tc, st1) = alloc st
      in (tc, st1\<lparr>contexts := (contexts st1)(tc \<mapsto> \<lparr>of_client = b, auto_memory = False\<rparr>)\<rparr>))"

definition RedisModule_AutoMemory :: "ptr \<Rightarrow> dispatch_state \<Rightarrow> dispatch_state" where
  "RedisModule_AutoMemory tc st =
     (case contexts st tc of
        None \<Rightarrow> st
      | Some t \<Rightarrow> st\<lparr>contexts := (contexts st)(tc \<mapsto> t\<lparr>auto_memory := True\<rparr>)\<rparr>)"

definition RedisModule_CreateStringFromString ::
  "ptr \<Rightarrow> ptr \<Rightarrow> dispatch_state \<Rightarrow> access_error + ptr \<times> dispatch_state" where
  "RedisModule_CreateStringFromString tc s st =
     (case strings st s of
        None \<Rightarrow> Inl InvalidAccess
      | Some obj \<Rightarrow>
          (let (s', st1) = alloc st
           in Inr (s', st1\<lparr>strings := (strings st1)(s' \<mapsto>
                              \<lparr>str_bytes = str_bytes obj, str_owner = tc\<rparr>)\<rparr>)))"

definition vec_read :: "dispatch_state \<Rightarrow> ptr \<Rightarrow> nat \<Rightarrow> ptr option" where
  "vec_read st v i =
     (case vectors st v of
        None \<Rightarrow> None
      | Some xs \<Rightarrow> if i < length xs then Some (xs ! i) else None)"

definition vec_write :: "dispatch_state \<Rightarrow> ptr \<Rightarrow> nat \<Rightarrow> ptr \<Rightarrow> dispatch_state option" where
  "vec_write st v i x =
     (case vectors st v of
        None \<Rightarrow> None
      | Some xs \<Rightarrow> if i < length xs then Some (st\<lparr>vectors := (vectors st)(v \<mapsto> xs[i := x])\<rparr>)
                  else None)"

text \<open>
  The copy loop of \<open>ConcurrentSearch_HandleRedisCommandEx\<close>, from index \<open>i\<close> with
  \<open>n\<close> iterations to go: \<open>cmdCtx->argv[i] = CreateStringFromString(cmdCtx->ctx, argv[i])\<close>.
  A read or write outside a live vector, or of a string that is not live, is an error
  of the model.
\<close>

fun copy_args ::
  "ptr \<Rightarrow> ptr \<Rightarrow> ptr \<Rightarrow> nat \<Rightarrow> nat \<Rightarrow> dispatch_state \<Rightarrow> access_error + dispatch_state" where
  "copy_args tc src dst i 0 st = Inr st"
| "copy_args tc src dst i (Suc n) st =
     (case vec_read st src i of
        None \<Rightarrow> Inl InvalidAccess
      | Some s \<Rightarrow>
          (case RedisModule_CreateStringFromString tc s st of
             Inl e \<Rightarrow> Inl e
           | Inr (s', st1) \<Rightarrow>
               (case vec_write st1 dst i s' of
                  None \<Rightarrow> Inl InvalidAccess
                | Some st2 \<Rightarrow> copy_args tc src dst (Suc i) n st2)))"

text \<open>
  \<open>ConcurrentSearch_ThreadPoolRun\<close> appends the work item to the queue of the pool. The
  code does not check the pool identifier.
\<close>

definition ConcurrentSearch_ThreadPoolRun :: "ptr \<Rightarrow> int \<Rightarrow> dispatch_state \<Rightarrow> dispatch_state" where
  "ConcurrentSearch_ThreadPoolRun arg type st = st\<lparr>work := (work st)(type := work st type @ [arg])\<rparr>"

definition ConcurrentSearch_HandleRedisCommandEx ::
  "int \<Rightarrow> 32 word \<Rightarrow> ptr \<Rightarrow> ptr \<Rightarrow> ptr \<Rightarrow> int \<Rightarrow> dispatch_state
     \<Rightarrow> access_error + int \<times> dispatch_state" where
  "ConcurrentSearch_HandleRedisCommandEx poolType opt hnd rctx args nargs st =
     (let (p, st1) = alloc st;
          (b, st2) = RedisModule_BlockClient rctx st1;
          (tc, st3) = RedisModule_GetThreadSafeContext b st2;
          st4 = RedisModule_AutoMemory tc st3;
          (v, st5) = calloc_vector nargs st4;
          st6 = st5\<lparr>cmds := (cmds st5)(p \<mapsto>
                   \<lparr>bc = b, cmd_ctx = tc, handler = hnd, argv = v, argc = nargs, options = opt\<rparr>)\<rparr>
      in case copy_args tc args v 0 (nat nargs) st6 of
           Inl e \<Rightarrow> Inl e
         | Inr st7 \<Rightarrow> Inr (REDISMODULE_OK, ConcurrentSearch_ThreadPoolRun p poolType st7))"

text \<open>
  What the handler is called with when \<open>threadHandleCommand\<close> runs the work item \<open>p\<close>:
  \<open>ctx->handler(ctx->ctx, ctx->argv, ctx->argc, ctx)\<close>, and the strings it then finds
  behind \<open>argv\<close>.
\<close>

definition threadHandleCommand_args :: "dispatch_state \<Rightarrow> ptr \<Rightarrow> (ptr \<times> ptr \<times> int \<times> ptr) option" where
  "threadHandleCommand_args st p =
     (case cmds st p of None \<Rightarrow> None | Some c \<Rightarrow> Some (cmd_ctx c, argv c, argc c, p))"

definition argv_strings :: "dispatch_state \<Rightarrow> ptr \<Rightarrow> string option list option" where
  "argv_strings st v =
     (case vectors st v of
        None \<Rightarrow> None
      | Some xs \<Rightarrow> Some (map (\<lambda>s. map_option str_bytes (strings st s)) xs))"

text \<open>
  The caller gives up the original vector once the dispatcher has returned: the host
  frees the vector and the strings in it.
\<close>

definition release_args :: "ptr \<Rightarrow> dispatch_state \<Rightarrow> dispatch_state" where
  "release_args args st =
     (case vectors st args of
        None \<Rightarrow> st
      | Some xs \<Rightarrow> st\<lparr>strings := (\<lambda>a. if a \<in> set xs then None else strings st a),
                       vectors := (vectors st)(args := None)\<rparr>)"

text \<open>
  A store is in order when every live object lies below \<open>brk\<close> and \<open>brk\<close> is not
  \<open>NULL\<close>.
\<close>

definition store_ok :: "dispatch_state \<Rightarrow> bool" where
  "store_ok st =
     (0 < brk st \<and> (\<forall>a. a \<in> dom (strings st) \<longrightarrow> a < brk st) \<and>
      (\<forall>a. a \<in> dom (vectors st) \<longrightarrow> a < brk st) \<and>
      (\<forall>a. a \<in> dom (cmds st) \<longrightarrow> a < brk st) \<and>
      (\<forall>a. a \<in> dom (contexts st) \<longrightarrow> a < brk st))"

definition example_store :: dispatch_state where
  "example_store =
     \<lparr>strings = [1 \<mapsto> \<lparr>str_bytes = ''FT.SEARCH'', str_owner = 9\<rparr>,
                 2 \<mapsto> \<lparr>str_bytes = ''idx'', str_owner = 9\<rparr>],
      vectors = [3 \<mapsto> [1, 2]],
      cmds = Map.empty, contexts = [9 \<mapsto> \<lparr>of_client = NULL, auto_memory = True\<rparr>],
      blocked = [], work = (\<lambda>_. []), brk = 10\<rparr>"

section \<open>Asynchronous indexing queue (rules/async.c)\<close>

text \<open>
  Modelled from the spec: the header rules.h, which declares the state flags of a
  \<open>SpecDocQueue\<close>, is not among the source files. The spec has the state as a set
  drawn from \<open>PENDING\<close> and \<open>PROCESSING\<close>: \<open>SDQ_S_PENDING\<close> is one bit of
  \<open>state\<close>.
\<close>

definition SDQ_S_PENDING :: "32 word" where
  "SDQ_S_PENDING = 1"

text \<open>
  Modelled from the spec: the header rules.h is not among the source files.
  \<open>SDQ_S_PROCESSING\<close> is the other member of the state set, a bit of its own.
\<close>

definition SDQ_S_PROCESSING :: "32 word" where
  "SDQ_S_PROCESSING = 2"

record RuleIndexableDocument =
  kstr :: ptr
  iia :: ptr

text \<open>
  A dict entry is the key pointer and the record pointer, in the order a dict iterator
  visits them. Keys are compared by the bytes of the string objects they point to, which
  live with their reference counts in \<open>kstrs\<close>.
\<close>

type_synonym dict = "(ptr \<times> ptr) list"

type_synonym key_store = "ptr \<rightharpoonup> string \<times> nat"

definition key_bytes :: "key_store \<Rightarrow> ptr \<Rightarrow> string option" where
  "key_bytes ks k = map_option fst (ks k)"

text \<open>
  Modelled from the spec: the dict library is not among the source files. The dict of a
  queue maps document keys to queued records; its size is the number of its entries.
\<close>

definition dictSize :: "dict \<Rightarrow> nat" where
  "dictSize d = length d"

text \<open>
  Modelled from the spec: the dict library is not among the source files. The entries
  whose key has the bytes of the given key.
\<close>

definition dictFind :: "key_store \<Rightarrow> dict \<Rightarrow> ptr \<Rightarrow> (ptr \<times> ptr) list" where
  "dictFind ks d k = filter (\<lambda>e. key_bytes ks (fst e) = key_bytes ks k) d"

text \<open>
  Modelled from the spec: the dict library is not among the source files. Keys are
  unique: adding a key that is present fails (\<open>None\<close>, the code's \<open>DICT_ERR\<close>) and
  the dict stays as it is; otherwise the entry is added.
\<close>

definition dictAdd :: "key_store \<Rightarrow> dict \<Rightarrow> ptr \<Rightarrow> ptr \<Rightarrow> dict option" where
  "dictAdd ks d k v = (if dictFind ks d k \<noteq> [] then None else Some (d @ [(k, v)]))"

text \<open>
  Modelled from the spec: the array macros of util/arr.h are not among the source files.
  The spec has the selected queue removed by fast-swap with the tail: the last element
  takes the place of the deleted one and the array gets shorter by one.
\<close>

definition array_del_fast :: "'a list \<Rightarrow> nat \<Rightarrow> 'a list" where
  "array_del_fast arr ix = butlast (arr[ix := last arr])"

record SpecDocQueue =
  spec :: nat
  entries :: dict
  state :: "32 word"
  nactive :: nat

text \<open>
  What the worker does to the host and to the indexer while it drains a batch, oldest
  call first.
\<close>

datatype batch_call =
    HostLock
  | HostUnlock
  | InitACTX ptr bool
  | CouldntIndex ptr
  | IndexerAdd ptr bool
  | ACTXFree ptr
  | IndexerIterate
  | IndexerIndex
  | IndexerDestroy

text \<open>
  The queue with everything it reaches. An \<open>IndexSpec\<close> is known by a number and
  \<open>queues\<close> gives its \<open>spec->queue\<close> (\<open>None\<close> for \<open>NULL\<close>); there is one queue per
  spec, so a \<open>SpecDocQueue *\<close> in the pending array is the number of the spec.
  \<open>spec_refs\<close> counts \<open>IndexSpec_Incref\<close> against \<open>IndexSpec_Decref\<close>, \<open>rids\<close>
  holds the live queued records and \<open>next_rid\<close> is the next address \<open>rm_calloc\<close>
  hands out. \<open>draining\<close> is the local \<open>dq\<close> of the worker thread between its
  selection and the end of \<open>indexBatch\<close>; \<open>gil\<close> tells whether the worker holds the
  host lock.
\<close>

record aiq_state =
  indexBatchSize :: nat
  pending :: "nat list"
  queues :: "nat \<rightharpoonup> SpecDocQueue"
  kstrs :: key_store
  rids :: "ptr \<rightharpoonup> RuleIndexableDocument"
  next_rid :: ptr
  spec_refs :: "nat \<Rightarrow> int"
  draining :: "nat option"
  gil :: bool
  calls :: "batch_call list"

datatype aiq_error = NotASpecDocQueue | DanglingPointer | HostLockHeld

definition rm_calloc_rid :: "RuleIndexableDocument \<Rightarrow> aiq_state \<Rightarrow> ptr \<times> aiq_state" where
  "rm_calloc_rid r st =
     (next_rid st, st\<lparr>rids := (rids st)(next_rid st \<mapsto> r), next_rid := Suc (next_rid st)\<rparr>)"

definition rm_free_rid :: "ptr \<Rightarrow> aiq_state \<Rightarrow> aiq_state" where
  "rm_free_rid r st = st\<lparr>rids := (rids st)(r := None)\<rparr>"

definition RedisModule_RetainString :: "ptr \<Rightarrow> aiq_state \<Rightarrow> aiq_state" where
  "RedisModule_RetainString k st =
     (case kstrs st k of
        None \<Rightarrow> st
      | Some (b, n) \<Rightarrow> st\<lparr>kstrs := (kstrs st)(k \<mapsto> (b, Suc n))\<rparr>)"

definition RedisModule_FreeString :: "ptr \<Rightarrow> aiq_state \<Rightarrow> aiq_state" where
  "RedisModule_FreeString k st =
     (case kstrs st k of
        None \<Rightarrow> st
      | Some (b, n) \<Rightarrow>
          if n \<le> 1 then st\<lparr>kstrs := (kstrs st)(k := None)\<rparr>
          else st\<lparr>kstrs := (kstrs st)(k \<mapsto> (b, n - 1))\<rparr>)"

text \<open>
  Modelled from the spec: \<open>SpecDocQueue_Create\<close> is not among the source files. The
  spec has the submitter locate or lazily create the queue of the spec: a new queue has
  an empty dict and an empty state and becomes \<open>spec->queue\<close>.
\<close>

definition SpecDocQueue_Create :: "nat \<Rightarrow> aiq_state \<Rightarrow> aiq_state" where
  "SpecDocQueue_Create sp st =
     st\<lparr>queues := (queues st)(sp \<mapsto> \<lparr>spec = sp, entries = [], state = 0, nactive = 0\<rparr>)\<rparr>"

text \<open>
  \<open>AIQ_Submit\<close> for the spec \<open>sp\<close>, the attributes \<open>attrs\<close> of the match and the key
  string \<open>k\<close> of the item. The first component of the result tells whether the condition
  variable was signalled.
\<close>

definition AIQ_Submit :: "nat \<Rightarrow> ptr \<Rightarrow> ptr \<Rightarrow> aiq_state \<Rightarrow> bool \<times> aiq_state" where
  "AIQ_Submit sp attrs k st =
     (let (rid, st1) = rm_calloc_rid \<lparr>kstr = k, iia = attrs\<rparr> st;
          st2 = RedisModule_RetainString k st1;
          st3 = (case queues st2 sp of None \<Rightarrow> SpecDocQueue_Create sp st2 | Some _ \<Rightarrow> st2)
      in case queues st3 sp of
           None \<Rightarrow> (False, st3)
         | Some dq \<Rightarrow>
             (case dictAdd (kstrs st3) (entries dq) k rid of
                None \<Rightarrow> (False, RedisModule_FreeString k (rm_free_rid rid st3))
              | Some d \<Rightarrow>
                  (let dq1 = dq\<lparr>entries := d\<rparr>;
                       flags = state dq1;
                       nqueued = dictSize (entries dq1);
                       st4 = (if flags AND (SDQ_S_PENDING OR SDQ_S_PROCESSING) = 0
                              then st3\<lparr>pending := pending st3 @ [sp],
                                      queues := (queues st3)(sp \<mapsto>
                                        dq1\<lparr>state := state dq1 OR SDQ_S_PENDING\<rparr>),
                                      spec_refs := (spec_refs st3)(sp := spec_refs st3 sp + 1)\<rparr>
                              else st3\<lparr>queues := (queues st3)(sp \<mapsto> dq1)\<rparr>)
                   in (flags AND SDQ_S_PROCESSING = 0 \<and> indexBatchSize st \<le> nqueued, st4))))"

text \<open>
  \<open>qsort\<close> calls the comparator with the addresses of two elements of the array, and
  the elements of the pending array are pointers to queues. A \<open>const void *\<close> the
  comparator receives is therefore one of two kinds: the address of a \<open>SpecDocQueue\<close>,
  or the address of a slot of the array, where a \<open>SpecDocQueue *\<close> is kept.
  \<open>sortPending\<close> takes both arguments as \<open>const SpecDocQueue *\<close> and reads
  \<open>entries\<close> through them; where the pointer is the address of a slot, no
  \<open>SpecDocQueue\<close> is there to read.
\<close>

datatype cptr = QueuePtr nat | SlotPtr nat

definition as_SpecDocQueue :: "aiq_state \<Rightarrow> cptr \<Rightarrow> SpecDocQueue option" where
  "as_SpecDocQueue st p = (case p of QueuePtr q \<Rightarrow> queues st q | SlotPtr i \<Rightarrow> None)"

definition sortPending :: "aiq_state \<Rightarrow> cptr \<Rightarrow> cptr \<Rightarrow> aiq_error + int" where
  "sortPending st a b =
     (case as_SpecDocQueue st a of
        None \<Rightarrow> Inl NotASpecDocQueue
      | Some qa \<Rightarrow>
          (case as_SpecDocQueue st b of
             None \<Rightarrow> Inl NotASpecDocQueue
           | Some qb \<Rightarrow>
               Inr (to_int32 (int (dictSize (entries qa)) - int (dictSize (entries qb))))))"

text \<open>
  \<open>qsort\<close> is libc's and its algorithm is left open by the C standard: here it is an
  insertion sort in place. The comparator is given the array as it stands, for a
  comparator that reads through the slot addresses, and the addresses of two slots.
\<close>

type_synonym comparator = "nat list \<Rightarrow> cptr \<Rightarrow> cptr \<Rightarrow> aiq_error + int"

fun qsort_sift :: "comparator \<Rightarrow> nat \<Rightarrow> nat list \<Rightarrow> aiq_error + nat list" where
  "qsort_sift cmp 0 arr = Inr arr"
| "qsort_sift cmp (Suc j) arr =
     (case cmp arr (SlotPtr j) (SlotPtr (Suc j)) of
        Inl e \<Rightarrow> Inl e
      | Inr r \<Rightarrow>
          if 0 < r then qsort_sift cmp j (arr[j := arr ! Suc j, Suc j := arr ! j])
          else Inr arr)"

fun qsort_from :: "comparator \<Rightarrow> nat \<Rightarrow> nat \<Rightarrow> nat list \<Rightarrow> aiq_error + nat list" where
  "qsort_from cmp i 0 arr = Inr arr"
| "qsort_from cmp i (Suc n) arr =
     (case qsort_sift cmp i arr of
        Inl e \<Rightarrow> Inl e
      | Inr arr' \<Rightarrow> qsort_from cmp (Suc i) n arr')"

definition qsort :: "comparator \<Rightarrow> nat list \<Rightarrow> aiq_error + nat list" where
  "qsort cmp arr = qsort_from cmp 1 (length arr - 1) arr"

text \<open>
  The worker, under the mutex, once the pending array is not empty.
  \<open>aiThread_take\<close> is what follows the call of \<open>qsort\<close>, on the array as \<open>qsort\<close>
  left it: take the last queue, delete it from the array, swap its dict for an empty one
  and mark it as being processed. \<open>aiThread_select\<close> is the whole step; with an empty
  array the worker stays in its wait loop and nothing is selected.
\<close>

definition aiThread_take :: "nat list \<Rightarrow> aiq_state \<Rightarrow> aiq_error + nat \<times> dict \<times> aiq_state" where
  "aiThread_take arr st =
     (let nq = length arr;
          dq = arr ! (nq - 1);
          arr' = array_del_fast arr (nq - 1)
      in case queues st dq of
           None \<Rightarrow> Inl DanglingPointer
         | Some q \<Rightarrow>
             (let oldEntries = entries q;
                  q' = q\<lparr>entries := [], nactive := dictSize oldEntries,
                         state := SDQ_S_PROCESSING\<rparr>
              in Inr (dq, oldEntries,
                      st\<lparr>pending := arr', queues := (queues st)(dq \<mapsto> q'),
                         draining := Some dq\<rparr>)))"

definition aiThread_select :: "aiq_state \<Rightarrow> (aiq_error + nat \<times> dict \<times> aiq_state) option" where
  "aiThread_select st =
     (if pending st = [] then None
      else Some (case qsort (\<lambda>arr. sortPending st) (pending st) of
                   Inl e \<Rightarrow> Inl e
                 | Inr arr \<Rightarrow> aiThread_take arr st))"

text \<open>
  The host lock as the worker thread takes it in \<open>indexBatch\<close>. It is a
  mutual-exclusion lock: a thread that asks for it while holding it waits for itself and
  the call does not return, which is the result \<open>HostLockHeld\<close>.
\<close>

definition RedisModule_ThreadSafeContextLock :: "aiq_state \<Rightarrow> aiq_error + aiq_state" where
  "RedisModule_ThreadSafeContextLock st =
     (if gil st then Inl HostLockHeld
      else Inr (st\<lparr>gil := True, calls := calls st @ [HostLock]\<rparr>))"

definition RedisModule_ThreadSafeContextUnlock :: "aiq_state \<Rightarrow> aiq_state" where
  "RedisModule_ThreadSafeContextUnlock st = st\<lparr>gil := False, calls := calls st @ [HostUnlock]\<rparr>"

text \<open>
  The loop of \<open>indexBatch\<close> over the entries of the swapped dict. \<open>init_ok\<close> tells
  for which key \<open>SchemaRules_InitACTX\<close> returns a context and \<open>add_ok\<close> for which
  \<open>Indexer_Add\<close> succeeds; both belong to the document pipeline. \<open>deleted\<close> is the
  \<open>Index_Deleted\<close> flag of the spec, which the worker only reads.
\<close>

fun indexBatch_loop ::
  "(ptr \<Rightarrow> bool) \<Rightarrow> (ptr \<Rightarrow> bool) \<Rightarrow> bool \<Rightarrow> dict \<Rightarrow> aiq_state \<Rightarrow> aiq_error + aiq_state" where
  "indexBatch_loop init_ok add_ok deleted [] st = Inr st"
| "indexBatch_loop init_ok add_ok deleted (e # es) st =
     (if deleted then Inr st
      else
        (case rids st (snd e) of
           None \<Rightarrow> Inl DanglingPointer
         | Some rid \<Rightarrow>
             (case RedisModule_ThreadSafeContextLock st of
                Inl err \<Rightarrow> Inl err
              | Inr st1 \<Rightarrow>
                  if \<not> init_ok (kstr rid) then
                    indexBatch_loop init_ok add_ok deleted es
                      (st1\<lparr>calls := calls st1 @
                              [InitACTX (kstr rid) False, CouldntIndex (kstr rid)]\<rparr>)
                  else
                    (let st2 = RedisModule_ThreadSafeContextUnlock
                                 (st1\<lparr>calls := calls st1 @ [InitACTX (kstr rid) True]\<rparr>);
                         st3 = (if \<not> add_ok (kstr rid)
                                then st2\<lparr>calls := calls st2 @
                                       [IndexerAdd (kstr rid) False, CouldntIndex (kstr rid),
                                        ACTXFree (kstr rid)]\<rparr>
                                else st2\<lparr>calls := calls st2 @ [IndexerAdd (kstr rid) True]\<rparr>);
                         st4 = rm_free_rid (snd e) (RedisModule_FreeString (kstr rid) st3)
                     in indexBatch_loop init_ok add_ok deleted es st4))))"

definition indexBatch_commit :: "bool \<Rightarrow> aiq_state \<Rightarrow> aiq_error + aiq_state" where
  "indexBatch_commit deleted st =
     (case RedisModule_ThreadSafeContextLock st of
        Inl err \<Rightarrow> Inl err
      | Inr st1 \<Rightarrow>
          Inr (RedisModule_ThreadSafeContextUnlock
                 (st1\<lparr>calls := calls st1 @
                    [if deleted then IndexerIterate else IndexerIndex, IndexerDestroy]\<rparr>)))"

text \<open>
  The end of \<open>indexBatch\<close>, under the mutex of the queue: the queue goes back to the
  pending array when entries have arrived in its live dict meanwhile.
\<close>

definition indexBatch_finish :: "nat \<Rightarrow> aiq_state \<Rightarrow> aiq_error + aiq_state" where
  "indexBatch_finish dq st =
     (case queues st dq of
        None \<Rightarrow> Inl DanglingPointer
      | Some q \<Rightarrow>
          (let q1 = q\<lparr>state := state q AND NOT SDQ_S_PROCESSING, nactive := 0\<rparr>
           in if dictSize (entries q1) \<noteq> 0
              then Inr (st\<lparr>queues := (queues st)(dq \<mapsto> q1\<lparr>state := SDQ_S_PENDING\<rparr>),
                          pending := pending st @ [dq], draining := None\<rparr>)
              else Inr (st\<lparr>queues := (queues st)(dq \<mapsto> q1),
                          spec_refs := (spec_refs st)(spec q1 := spec_refs st (spec q1) - 1),
                          draining := None\<rparr>)))"

definition indexBatch ::
  "(ptr \<Rightarrow> bool) \<Rightarrow> (ptr \<Rightarrow> bool) \<Rightarrow> bool \<Rightarrow> nat \<Rightarrow> dict \<Rightarrow> aiq_state \<Rightarrow> aiq_error + aiq_state" where
  "indexBatch init_ok add_ok deleted dq old st =
     (case indexBatch_loop init_ok add_ok deleted old st of
        Inl err \<Rightarrow> Inl err
      | Inr st1 \<Rightarrow>
          (case indexBatch_commit deleted st1 of
             Inl err \<Rightarrow> Inl err
           | Inr st2 \<Rightarrow> indexBatch_finish dq st2))"

text \<open>
  The states the queue can be in whenever its mutex is free. It starts with an empty
  pending array and no queue. Three steps change the pending array or the state of a
  queue, each under the mutex: a submission, the selection by the worker (only while it
  is not inside \<open>indexBatch\<close>) and the end of \<open>indexBatch\<close> for the queue the worker
  selected. The selection is taken for every order in which \<open>qsort\<close> may leave the
  array. Between the selection and the end of \<open>indexBatch\<close> the worker drains the
  swapped dict with the mutex free: the loop over entries (over any run of entries, so
  that the state after each iteration is covered) and the commit that follows it.
\<close>

definition aiq_initial :: "aiq_state \<Rightarrow> bool" where
  "aiq_initial st = (pending st = [] \<and> queues st = Map.empty \<and> draining st = None)"

inductive aiq_reachable :: "aiq_state \<Rightarrow> bool" where
  start: "aiq_initial st \<Longrightarrow> aiq_reachable st"
| submit: "aiq_reachable st \<Longrightarrow> aiq_reachable (snd (AIQ_Submit sp attrs k st))"
| select: "aiq_reachable st \<Longrightarrow> draining st = None \<Longrightarrow> pending st \<noteq> [] \<Longrightarrow>
           mset arr = mset (pending st) \<Longrightarrow> aiThread_take arr st = Inr (dq, old, st') \<Longrightarrow>
           aiq_reachable st'"
| drain: "aiq_reachable st \<Longrightarrow> draining st = Some dq \<Longrightarrow>
          indexBatch_loop init_ok add_ok deleted old st = Inr st' \<Longrightarrow> aiq_reachable st'"
| commit: "aiq_reachable st \<Longrightarrow> draining st = Some dq \<Longrightarrow>
           indexBatch_commit deleted st = Inr st' \<Longrightarrow> aiq_reachable st'"
| finish: "aiq_reachable st \<Longrightarrow> draining st = Some dq \<Longrightarrow>
           indexBatch_finish dq st = Inr st' \<Longrightarrow> aiq_reachable st'"

text \<open>
  The invariant of the pending array, and what is known of the queue the worker is
  draining.
\<close>

definition pending_inv :: "aiq_state \<Rightarrow> bool" where
  "pending_inv st =
     (distinct (pending st) \<and>
      (\<forall>q. q \<in> set (pending st) \<longleftrightarrow>
           (\<exists>dq. queues st q = Some dq \<and> state dq AND SDQ_S_PENDING \<noteq> 0)))"

definition worker_inv :: "aiq_state \<Rightarrow> bool" where
  "worker_inv st =
     (\<forall>q. draining st = Some q \<longrightarrow>
           (\<exists>dq. queues st q = Some dq \<and> state dq = SDQ_S_PROCESSING))"

text \<open>
  The dict of a queue has unique keys when no two entries have keys with the same bytes.
\<close>

definition dict_ok :: "key_store \<Rightarrow> dict \<Rightarrow> bool" where
  "dict_ok ks d = distinct (map (\<lambda>e. key_bytes ks (fst e)) d)"

text \<open>
  The states of the examples. In \<open>two_specs\<close> the spec 1 has five documents queued and
  the spec 2 has one, both queues are pending, spec 1 first. In \<open>one_failing\<close> the worker
  is about to drain a batch of one document.
\<close>

definition example_keystore :: key_store where
  "example_keystore =
     [101 \<mapsto> (''doc1'', 2), 102 \<mapsto> (''doc2'', 2), 103 \<mapsto> (''doc3'', 2), 104 \<mapsto> (''doc4'', 2),
      105 \<mapsto> (''doc5'', 2), 106 \<mapsto> (''doc6'', 2), 107 \<mapsto> (''doc1'', 1)]"

definition two_specs :: aiq_state where
  "two_specs =
     \<lparr>indexBatchSize = 3, pending = [1, 2],
      queues = [1 \<mapsto> \<lparr>spec = 1, entries = [(101, 201), (102, 202), (103, 203), (104, 204),
                                              (105, 205)],
                       state = SDQ_S_PENDING, nactive = 0\<rparr>,
                2 \<mapsto> \<lparr>spec = 2, entries = [(106, 206)], state = SDQ_S_PENDING, nactive = 0\<rparr>],
      kstrs = example_keystore,
      rids = [201 \<mapsto> \<lparr>kstr = 101, iia = 0\<rparr>, 202 \<mapsto> \<lparr>kstr = 102, iia = 0\<rparr>,
              203 \<mapsto> \<lparr>kstr = 103, iia = 0\<rparr>, 204 \<mapsto> \<lparr>kstr = 104, iia = 0\<rparr>,
              205 \<mapsto> \<lparr>kstr = 105, iia = 0\<rparr>, 206 \<mapsto> \<lparr>kstr = 106, iia = 0\<rparr>],
      next_rid = 207, spec_refs = (\<lambda>_. 1), draining = None, gil = False, calls = []\<rparr>"

definition one_failing :: aiq_state where
  "one_failing =
     \<lparr>indexBatchSize = 3, pending = [],
      queues = [2 \<mapsto> \<lparr>spec = 2, entries = [], state = SDQ_S_PROCESSING, nactive = 1\<rparr>],
      kstrs = example_keystore,
      rids = [206 \<mapsto> \<lparr>kstr = 106, iia = 0\<rparr>],
      next_rid = 207, spec_refs = (\<lambda>_. 1), draining = Some 2, gil = False, calls = []\<rparr>"

text \<open>
  The comparator that the comment at the call of \<open>qsort\<close> describes (sort in ascending
  order, the queue with the fewest items first): it reads the queue pointers kept in the
  two slots and compares the dict sizes of those queues. It is not the code's comparator,
  which is \<open>sortPending\<close>; it is here to be compared with it.
\<close>

definition sortPending_by_depth :: "aiq_state \<Rightarrow> comparator" where
  "sortPending_by_depth st arr a b =
     (case a of
        QueuePtr _ \<Rightarrow> Inl NotASpecDocQueue
      | SlotPtr i \<Rightarrow>
          (case b of
             QueuePtr _ \<Rightarrow> Inl NotASpecDocQueue
           | SlotPtr j \<Rightarrow>
               if i < length arr \<and> j < length arr
               then sortPending st (QueuePtr (arr ! i)) (QueuePtr (arr ! j))
               else Inl DanglingPointer))"

text \<open>
  A run for the examples: from an empty queue, a document is submitted for spec 5, the
  worker selects the queue, a second document arrives before the batch is drained, the
  worker indexes the first document (loop, then commit), and the end of the batch puts
  the queue back.
\<close>

definition aiq_start :: aiq_state where
  "aiq_start =
     \<lparr>indexBatchSize = 3, pending = [], queues = Map.empty, kstrs = example_keystore,
      rids = Map.empty, next_rid = 201, spec_refs = (\<lambda>_. 1), draining = None, gil = False,
      calls = []\<rparr>"

definition run_submitted :: aiq_state where
  "run_submitted = snd (AIQ_Submit 5 0 101 aiq_start)"

definition run_selected :: aiq_state where
  "run_selected =
     run_submitted\<lparr>pending := [],
       queues := (queues run_submitted)(5 \<mapsto>
          \<lparr>spec = 5, entries = [], state = SDQ_S_PROCESSING, nactive = 1\<rparr>),
       draining := Some 5\<rparr>"

definition run_resubmitted :: aiq_state where
  "run_resubmitted = snd (AIQ_Submit 5 0 102 run_selected)"

definition run_looped :: aiq_state where
  "run_looped =
     run_resubmitted\<lparr>
       kstrs := (kstrs run_resubmitted)(101 \<mapsto> (''doc1'', 2)),
       rids := (rids run_resubmitted)(201 := None),
       gil := False,
       calls := [HostLock, InitACTX 101 True, HostUnlock, IndexerAdd 101 True]\<rparr>"

definition run_drained :: aiq_state where
  "run_drained =
     run_looped\<lparr>
       gil := False,
       calls := [HostLock, InitACTX 101 True, HostUnlock, IndexerAdd 101 True,
                 HostLock, IndexerIndex, IndexerDestroy, HostUnlock]\<rparr>"

definition run_finished :: aiq_state where
  "run_finished =
     run_drained\<lparr>
       queues := (queues run_drained)(5 \<mapsto>
          \<lparr>spec = 5, entries = [(102, 202)], state = SDQ_S_PENDING, nactive = 0\<rparr>),
       pending := [5], draining := None\<rparr>"

section \<open>Properties of the thread pool registry\<close>

lemma to_int32_small: "0 \<le> x \<Longrightarrow> x < 2 ^ 31 \<Longrightarrow> to_int32 x = x"
  by (simp add: to_int32_def)

text \<open>
  Claim C10. Starting the pools from the initial globals creates the search pool as pool 0
  and then the index pool as pool 1. Once the search identifier is set, a further call
  changes neither the registry nor the two identifiers, whatever the configuration and the
  processor count are by then; so a second start after the first is the identity.
\<close>

theorem ThreadPoolStart_idempotent:
  "ConcurrentSearch_ThreadPoolStart cfg np pool_globals_init =
     \<lparr>threadpools_g = Some [thpool_init (to_int32 (searchPoolSize cfg)),
        thpool_init (to_int32 (if \<not> poolSizeNoAuto cfg \<and> 1 \<le> np then np else indexPoolSize cfg))],
      CONCURRENT_POOL_INDEX = 1, CONCURRENT_POOL_SEARCH = 0\<rparr>
   \<and> (\<forall>g. CONCURRENT_POOL_SEARCH g \<noteq> - 1 \<longrightarrow> ConcurrentSearch_ThreadPoolStart cfg' np' g = g)
   \<and> ConcurrentSearch_ThreadPoolStart cfg' np'
        (ConcurrentSearch_ThreadPoolStart cfg np pool_globals_init) =
      ConcurrentSearch_ThreadPoolStart cfg np pool_globals_init"
proof -
  have first: "ConcurrentSearch_ThreadPoolStart cfg np pool_globals_init =
     \<lparr>threadpools_g = Some [thpool_init (to_int32 (searchPoolSize cfg)),
        thpool_init (to_int32 (if \<not> poolSizeNoAuto cfg \<and> 1 \<le> np then np else indexPoolSize cfg))],
      CONCURRENT_POOL_INDEX = 1, CONCURRENT_POOL_SEARCH = 0\<rparr>"
    by (simp add: ConcurrentSearch_ThreadPoolStart_def ConcurrentSearch_CreatePool_def
        pool_globals_init_def to_int32_small Let_def)
  have later: "\<forall>g. CONCURRENT_POOL_SEARCH g \<noteq> - 1 \<longrightarrow>
      ConcurrentSearch_ThreadPoolStart cfg' np' g = g"
    by (simp add: ConcurrentSearch_ThreadPoolStart_def)
  have again: "ConcurrentSearch_ThreadPoolStart cfg' np'
        (ConcurrentSearch_ThreadPoolStart cfg np pool_globals_init) =
      ConcurrentSearch_ThreadPoolStart cfg np pool_globals_init"
    unfolding first by (simp add: ConcurrentSearch_ThreadPoolStart_def)
  from first later again show ?thesis by blast
qed

theorem ThreadPoolStart_idempotent_witness:
  "ConcurrentSearch_ThreadPoolStart
     \<lparr>searchPoolSize = 20, indexPoolSize = 8, poolSizeNoAuto = False\<rparr> 4 pool_globals_init =
     \<lparr>threadpools_g = Some [thpool_init 20, thpool_init 4],
      CONCURRENT_POOL_INDEX = 1, CONCURRENT_POOL_SEARCH = 0\<rparr>
   \<and> ConcurrentSearch_ThreadPoolStart
       \<lparr>searchPoolSize = 3, indexPoolSize = 5, poolSizeNoAuto = True\<rparr> 16
       \<lparr>threadpools_g = Some [thpool_init 20, thpool_init 4],
        CONCURRENT_POOL_INDEX = 1, CONCURRENT_POOL_SEARCH = 0\<rparr> =
     \<lparr>threadpools_g = Some [thpool_init 20, thpool_init 4],
      CONCURRENT_POOL_INDEX = 1, CONCURRENT_POOL_SEARCH = 0\<rparr>"
  using ThreadPoolStart_idempotent
    [of "\<lparr>searchPoolSize = 20, indexPoolSize = 8, poolSizeNoAuto = False\<rparr>" 4
        "\<lparr>searchPoolSize = 3, indexPoolSize = 5, poolSizeNoAuto = True\<rparr>" 16]
  by (simp add: to_int32_def)

section \<open>Properties of the SearchContext\<close>

lemma to_int64_small: "- (2 ^ 63) \<le> x \<Longrightarrow> x < 2 ^ 63 \<Longrightarrow> to_int64 x = x"
  by (simp add: to_int64_def)

lemma CloseKeys_loop_eq:
  "CloseKeys_loop kxs h =
     h @ concat (map (\<lambda>kx. if key kx \<noteq> NULL \<and> opts kx AND ConcurrentKey_SharedKey = 0
                              then [HostCloseKey (key kx)] else []) kxs)"
  by (induction kxs arbitrary: h) simp_all

lemma Unlock_eq:
  "ConcurrentSearchCtx_Unlock (c, h) =
     (c\<lparr>isLocked := 0\<rparr>,
      h @ concat (map (\<lambda>kx. if key kx \<noteq> NULL \<and> opts kx AND ConcurrentKey_SharedKey = 0
                               then [HostCloseKey (key kx)] else []) (openKeys c))
        @ [ThreadSafeContextUnlock (ctx c)])"
  by (simp add: ConcurrentSearchCtx_Unlock_def ConcurrentSearch_CloseKeys_def CloseKeys_loop_eq)

lemma ReopenKeys_loop_length:
  "length (fst (ReopenKeys_loop ok r kxs h)) = length kxs"
  by (induction kxs arbitrary: h) (simp_all add: Let_def case_prod_beta)

lemma ReopenKeys_loop_fields:
  "map keyName (fst (ReopenKeys_loop ok r kxs h)) = map keyName kxs \<and>
   map keyFlags (fst (ReopenKeys_loop ok r kxs h)) = map keyFlags kxs \<and>
   map cb (fst (ReopenKeys_loop ok r kxs h)) = map cb kxs \<and>
   map privdata (fst (ReopenKeys_loop ok r kxs h)) = map privdata kxs"
  by (induction kxs arbitrary: h) (simp_all add: Let_def case_prod_beta)

lemma ReopenKeys_loop_trace:
  "snd (ReopenKeys_loop ok r kxs h) =
     h @ concat (map (reopen_calls r) (fst (ReopenKeys_loop ok r kxs h)))"
  by (induction kxs arbitrary: h) (simp_all add: Let_def reopen_calls_def case_prod_beta)

lemma ReopenKeys_loop_key:
  "i < length kxs \<Longrightarrow>
   key (fst (ReopenKeys_loop ok r kxs h) ! i) =
     ok (h @ concat (map (reopen_calls r) (take i (fst (ReopenKeys_loop ok r kxs h)))))
        r (keyName (kxs ! i)) (keyFlags (kxs ! i))"
proof (induction kxs arbitrary: h i)
  case Nil
  then show ?case by simp
next
  case (Cons kx kxs)
  show ?case
  proof (cases i)
    case 0
    then show ?thesis by (simp add: Let_def case_prod_beta)
  next
    case (Suc j)
    with Cons.prems have j: "j < length kxs" by simp
    show ?thesis
      using Cons.IH [OF j, of "h @ [HostOpenKey r (keyName kx) (keyFlags kx) (ok h r (keyName kx) (keyFlags kx)),
                    ReopenCallback (cb kx) (ok h r (keyName kx) (keyFlags kx)) (privdata kx)]"] Suc
      by (simp add: Let_def reopen_calls_def case_prod_beta)
  qed
qed

text \<open>
  Unlock followed by Lock always gets past the assertion, and this is what it leaves.
\<close>

lemma Unlock_Lock_run:
  "\<exists>c' h'. ConcurrentSearchCtx_Lock ok (ConcurrentSearchCtx_Unlock (c, h)) = Inr (c', h') \<and>
     isLocked c' = 1 \<and>
     length (openKeys c') = length (openKeys c) \<and>
     map keyName (openKeys c') = map keyName (openKeys c) \<and>
     map keyFlags (openKeys c') = map keyFlags (openKeys c) \<and>
     map cb (openKeys c') = map cb (openKeys c) \<and>
     map privdata (openKeys c') = map privdata (openKeys c) \<and>
     h' = snd (ConcurrentSearchCtx_Unlock (c, h)) @ ThreadSafeContextLock (ctx c) #
            concat (map (reopen_calls (ctx c)) (openKeys c')) \<and>
     (\<forall>i < length (openKeys c).
        key (openKeys c' ! i) =
          ok (snd (ConcurrentSearchCtx_Unlock (c, h)) @ ThreadSafeContextLock (ctx c) #
                concat (map (reopen_calls (ctx c)) (take i (openKeys c'))))
             (ctx c) (keyName (openKeys c ! i)) (keyFlags (openKeys c ! i)))"
proof -
  define h1 where "h1 = snd (ConcurrentSearchCtx_Unlock (c, h)) @ [ThreadSafeContextLock (ctx c)]"
  define kxs where "kxs = fst (ReopenKeys_loop ok (ctx c) (openKeys c) h1)"
  define c' where "c' = c\<lparr>isLocked := 1, openKeys := kxs\<rparr>"
  define h' where "h' = snd (ReopenKeys_loop ok (ctx c) (openKeys c) h1)"
  have run: "ConcurrentSearchCtx_Lock ok (ConcurrentSearchCtx_Unlock (c, h)) = Inr (c', h')"
    by (simp add: ConcurrentSearchCtx_Lock_def ConcurrentSearchCtx_Unlock_def
        ConcurrentSearchCtx_ReopenKeys_def case_prod_beta Let_def c'_def h'_def kxs_def h1_def)
  have ok': "openKeys c' = kxs" "isLocked c' = 1"
    by (simp_all add: c'_def)
  have len: "length kxs = length (openKeys c)"
    unfolding kxs_def by (rule ReopenKeys_loop_length)
  have flds: "map keyName kxs = map keyName (openKeys c)"
      "map keyFlags kxs = map keyFlags (openKeys c)"
      "map cb kxs = map cb (openKeys c)" "map privdata kxs = map privdata (openKeys c)"
    unfolding kxs_def using ReopenKeys_loop_fields [of ok "ctx c" "openKeys c" h1] by simp_all
  have tr: "h' = h1 @ concat (map (reopen_calls (ctx c)) kxs)"
    unfolding h'_def kxs_def by (rule ReopenKeys_loop_trace)
  have ky: "key (kxs ! i) = ok (h1 @ concat (map (reopen_calls (ctx c)) (take i kxs)))
             (ctx c) (keyName (openKeys c ! i)) (keyFlags (openKeys c ! i))"
    if "i < length (openKeys c)" for i
    unfolding kxs_def using that by (rule ReopenKeys_loop_key)
  show ?thesis
    using run ok' len flds tr ky by (simp add: h1_def)
qed

lemma durationNS_exact:
  assumes "valid_timespec now" "valid_timespec lastT"
  shows "durationNS now lastT = elapsed_ns now lastT"
proof -
  from assms have b: "0 \<le> tv_sec now" "tv_sec now < 8589934592" "0 \<le> tv_nsec now"
      "tv_nsec now < 1000000000" "0 \<le> tv_sec lastT" "tv_sec lastT < 8589934592"
      "0 \<le> tv_nsec lastT" "tv_nsec lastT < 1000000000"
    by (simp_all add: valid_timespec_def)
  have s: "to_int64 (tv_sec now - tv_sec lastT) = tv_sec now - tv_sec lastT"
    using b by (intro to_int64_small) simp_all
  have n: "to_int64 (tv_nsec now - tv_nsec lastT) = tv_nsec now - tv_nsec lastT"
    using b by (intro to_int64_small) simp_all
  have m: "to_int64 (1000000000 * (tv_sec now - tv_sec lastT)) =
      1000000000 * (tv_sec now - tv_sec lastT)"
    using b by (intro to_int64_small) simp_all
  have t: "to_int64 (1000000000 * (tv_sec now - tv_sec lastT) + (tv_nsec now - tv_nsec lastT)) =
      1000000000 * (tv_sec now - tv_sec lastT) + (tv_nsec now - tv_nsec lastT)"
    using b by (intro to_int64_small) simp_all
  show ?thesis
    by (simp only: durationNS_def elapsed_ns_def s n m t)
qed

lemma filter_callbacks_closes:
  "filter is_ReopenCallback
     (concat (map (\<lambda>kx. if key kx \<noteq> NULL \<and> opts kx AND ConcurrentKey_SharedKey = 0
                           then [HostCloseKey (key kx)] else []) kxs)) = []"
  by (induction kxs) simp_all

lemma filter_callbacks_reopen:
  "filter is_ReopenCallback (concat (map (reopen_calls r) kxs)) =
     map (\<lambda>kx. ReopenCallback (cb kx) (key kx) (privdata kx)) kxs"
  by (induction kxs) (simp_all add: reopen_calls_def)

lemma example_Unlock:
  "ConcurrentSearchCtx_Unlock (example_ctx 1, []) =
     (example_ctx 0, [HostCloseKey 5, ThreadSafeContextUnlock 1])"
  by (simp add: Unlock_eq example_ctx_def example_keys_def ConcurrentKey_SharedKey_def)

lemma example_Unlock_Lock:
  "ConcurrentSearchCtx_Lock example_open_key (ConcurrentSearchCtx_Unlock (example_ctx 1, [])) =
     Inr (\<lparr>ctx = 1, isLocked = 1,
           openKeys =
             [\<lparr>key = 4, keyName = ''x'', keyFlags = 1, cb = 11, privdata = 12,
               freePrivData = NULL, opts = 0\<rparr>,
              \<lparr>key = 6, keyName = ''y'', keyFlags = 1, cb = 13, privdata = 14,
               freePrivData = NULL, opts = 0\<rparr>],
           lastTime = \<lparr>tv_sec = 7, tv_nsec = 900000000\<rparr>, ticker = 3\<rparr>,
          [HostCloseKey 5, ThreadSafeContextUnlock 1, ThreadSafeContextLock 1,
           HostOpenKey 1 ''x'' 1 4, ReopenCallback 11 4 12,
           HostOpenKey 1 ''y'' 1 6, ReopenCallback 13 6 14])"
  by (simp only: example_Unlock)
    (simp add: ConcurrentSearchCtx_Lock_def ConcurrentSearchCtx_ReopenKeys_def
      example_ctx_def example_keys_def example_open_key_def ConcurrentKey_SharedKey_def Let_def)

text \<open>
  Claim C9. Calling Lock on a context whose lock-held flag is set fails the assertion;
  on a context whose flag is clear the assertion passes and Lock returns, with the flag
  set.
\<close>

theorem Lock_asserts_unlocked:
  "(isLocked c \<noteq> 0 \<longrightarrow> ConcurrentSearchCtx_Lock ok (c, h) = Inl AssertionFailed) \<and>
   (isLocked c = 0 \<longrightarrow>
      (\<exists>c' h'. ConcurrentSearchCtx_Lock ok (c, h) = Inr (c', h') \<and> isLocked c' = 1))"
  by (simp add: ConcurrentSearchCtx_Lock_def ConcurrentSearchCtx_ReopenKeys_def
      case_prod_beta Let_def)

theorem Lock_asserts_unlocked_witness:
  "isLocked (example_ctx 1) \<noteq> 0 \<and> isLocked (example_ctx 0) = 0 \<and>
   ConcurrentSearchCtx_Lock example_open_key (example_ctx 1, []) = Inl AssertionFailed \<and>
   (\<exists>c' h'. ConcurrentSearchCtx_Lock example_open_key (example_ctx 0, []) = Inr (c', h') \<and>
      isLocked c' = 1)"
  using Lock_asserts_unlocked [of "example_ctx 1" example_open_key "[]"]
    Lock_asserts_unlocked [of "example_ctx 0" example_open_key "[]"]
  by (simp add: example_ctx_def)

text \<open>
  Claim C6 says, in its second half, that for an entry whose shared-handle bit is set the
  context never calls close-key on the handle the entry stores. That fails where the same
  handle is tracked by a second entry with the bit clear: in \<open>alias_ctx\<close> the first
  entry is shared and stores handle 9, and Unlock closes handle 9.
\<close>

theorem Unlock_closes_aliased_shared_handle:
  "opts (openKeys alias_ctx ! 0) AND ConcurrentKey_SharedKey \<noteq> 0 \<and>
   key (openKeys alias_ctx ! 0) = 9 \<and>
   snd (ConcurrentSearchCtx_Unlock (alias_ctx, [])) =
     [HostCloseKey 9, ThreadSafeContextUnlock 1] \<and>
   HostCloseKey (key (openKeys alias_ctx ! 0))
     \<in> set (snd (ConcurrentSearchCtx_Unlock (alias_ctx, [])))"
  by (simp add: Unlock_eq alias_ctx_def ConcurrentKey_SharedKey_def)

text \<open>
  Claim C6, as amended. Unlock calls close-key once for each tracked entry whose handle is
  not \<open>NULL\<close> and whose shared-handle bit is clear, in the order of the entries, then
  releases the host lock and clears the lock-held flag; it makes no other call. An entry
  whose shared-handle bit is set causes no close of its own: its handle is closed during
  the unlock only if another tracked entry stores the same handle with the bit clear.
\<close>

theorem Unlock_closes_owned_handles:
  "ConcurrentSearchCtx_Unlock (c, h) =
     (c\<lparr>isLocked := 0\<rparr>,
      h @ concat (map (\<lambda>kx. if key kx \<noteq> NULL \<and> opts kx AND ConcurrentKey_SharedKey = 0
                               then [HostCloseKey (key kx)] else []) (openKeys c))
        @ [ThreadSafeContextUnlock (ctx c)])
   \<and> (\<forall>kx \<in> set (openKeys c). opts kx AND ConcurrentKey_SharedKey \<noteq> 0 \<longrightarrow>
        HostCloseKey (key kx) \<in> set (drop (length h) (snd (ConcurrentSearchCtx_Unlock (c, h)))) \<longrightarrow>
        (\<exists>kx' \<in> set (openKeys c). key kx' = key kx \<and> key kx' \<noteq> NULL \<and>
            opts kx' AND ConcurrentKey_SharedKey = 0))"
proof -
  have "\<exists>kx' \<in> set (openKeys c). key kx' = k \<and> key kx' \<noteq> NULL \<and>
            opts kx' AND ConcurrentKey_SharedKey = 0"
    if "HostCloseKey k \<in> set (drop (length h) (snd (ConcurrentSearchCtx_Unlock (c, h))))" for k
    using that unfolding Unlock_eq by (auto split: if_splits)
  with Unlock_eq [of c h] show ?thesis by blast
qed

theorem Unlock_closes_owned_handles_witness:
  "ConcurrentSearchCtx_Unlock (example_ctx 1, []) =
     (example_ctx 0, [HostCloseKey 5, ThreadSafeContextUnlock 1]) \<and>
   opts (example_keys ! 1) AND ConcurrentKey_SharedKey \<noteq> 0 \<and> key (example_keys ! 1) = 6 \<and>
   HostCloseKey 6 \<notin> set (snd (ConcurrentSearchCtx_Unlock (example_ctx 1, [])))"
  using Unlock_closes_owned_handles [of "example_ctx 1" "[]"]
  by (simp add: example_Unlock) (simp add: example_keys_def ConcurrentKey_SharedKey_def)

text \<open>
  Claim C5. Unlock followed by Lock returns (the assertion of Lock passes). The tracked
  entries are the same in number and position, each with the key name, open flags,
  callback and private data it had. Each entry's handle is the one the host's open-key
  returned for the stored name and flags during this Lock, and the entry's callback was
  called with that handle and the entry's private data right after.
\<close>

theorem Unlock_Lock_reopens:
  "\<exists>c' h'. ConcurrentSearchCtx_Lock ok (ConcurrentSearchCtx_Unlock (c, h)) = Inr (c', h') \<and>
     length (openKeys c') = length (openKeys c) \<and>
     map keyName (openKeys c') = map keyName (openKeys c) \<and>
     map keyFlags (openKeys c') = map keyFlags (openKeys c) \<and>
     map cb (openKeys c') = map cb (openKeys c) \<and>
     map privdata (openKeys c') = map privdata (openKeys c) \<and>
     h' = snd (ConcurrentSearchCtx_Unlock (c, h)) @ ThreadSafeContextLock (ctx c) #
            concat (map (reopen_calls (ctx c)) (openKeys c')) \<and>
     (\<forall>i < length (openKeys c).
        key (openKeys c' ! i) =
          ok (snd (ConcurrentSearchCtx_Unlock (c, h)) @ ThreadSafeContextLock (ctx c) #
                concat (map (reopen_calls (ctx c)) (take i (openKeys c'))))
             (ctx c) (keyName (openKeys c ! i)) (keyFlags (openKeys c ! i)))"
  using Unlock_Lock_run [of ok c h] by blast

theorem Unlock_Lock_reopens_witness:
  "\<exists>c' h'. ConcurrentSearchCtx_Lock example_open_key
        (ConcurrentSearchCtx_Unlock (example_ctx 1, [])) = Inr (c', h') \<and>
     map keyName (openKeys c') = [''x'', ''y''] \<and>
     map keyFlags (openKeys c') = [1, 1] \<and>
     map key (openKeys c') = [4, 6] \<and>
     h' = [HostCloseKey 5, ThreadSafeContextUnlock 1, ThreadSafeContextLock 1,
           HostOpenKey 1 ''x'' 1 4, ReopenCallback 11 4 12,
           HostOpenKey 1 ''y'' 1 6, ReopenCallback 13 6 14]"
  using Unlock_Lock_reopens [of example_open_key "example_ctx 1" "[]"]
  by (simp add: example_Unlock_Lock)

text \<open>
  Claim C2. For clock readings that are proper timespecs, the timer check returns 1
  exactly when the time elapsed since the last reset is more than 10^8 ns, and 0
  otherwise. When it returns 1 it has run Unlock, then Lock, then the clock reset: the
  new calls to reopen callbacks are one per tracked entry, in order, each with the
  entry's new handle, and the clock holds the new reading with the tick counter at 0.
  When it returns 0 the context and the host are as they were.
\<close>

theorem CheckTimer_yields_after_budget:
  assumes "valid_timespec now" and "valid_timespec (lastTime c)"
  shows "\<exists>y c' h'. ConcurrentSearch_CheckTimer ok now now' (c, h) = Inr (y, c', h') \<and>
     (y = 0 \<or> y = 1) \<and>
     (y = 1 \<longleftrightarrow> elapsed_ns now (lastTime c) > 100000000) \<and>
     (y = 1 \<longrightarrow>
        (\<exists>c2. ConcurrentSearchCtx_Lock ok (ConcurrentSearchCtx_Unlock (c, h)) = Inr (c2, h') \<and>
           c' = ConcurrentSearchCtx_ResetClock now' c2) \<and>
        lastTime c' = now' \<and> ticker c' = 0 \<and> isLocked c' = 1 \<and>
        length (openKeys c') = length (openKeys c) \<and>
        map cb (openKeys c') = map cb (openKeys c) \<and>
        filter is_ReopenCallback (drop (length h) h') =
          map (\<lambda>kx. ReopenCallback (cb kx) (key kx) (privdata kx)) (openKeys c')) \<and>
     (y = 0 \<longrightarrow> c' = c \<and> h' = h)"
proof (cases "elapsed_ns now (lastTime c) > 100000000")
  case False
  then have "ConcurrentSearch_CheckTimer ok now now' (c, h) = Inr (0, c, h)"
    using durationNS_exact [OF assms]
    by (simp add: ConcurrentSearch_CheckTimer_def CONCURRENT_TIMEOUT_NS_def)
  with False show ?thesis by simp
next
  case True
  obtain c2 h2 where
    run: "ConcurrentSearchCtx_Lock ok (ConcurrentSearchCtx_Unlock (c, h)) = Inr (c2, h2)"
    and props: "isLocked c2 = 1" "length (openKeys c2) = length (openKeys c)"
      "map cb (openKeys c2) = map cb (openKeys c)"
      "h2 = snd (ConcurrentSearchCtx_Unlock (c, h)) @ ThreadSafeContextLock (ctx c) #
            concat (map (reopen_calls (ctx c)) (openKeys c2))"
    using Unlock_Lock_run [of ok c h] by blast
  have f: "filter is_ReopenCallback (drop (length h) h2) =
      map (\<lambda>kx. ReopenCallback (cb kx) (key kx) (privdata kx)) (openKeys c2)"
    unfolding props(4) Unlock_eq
    by (simp add: filter_callbacks_closes filter_callbacks_reopen)
  have res: "ConcurrentSearch_CheckTimer ok now now' (c, h) =
      Inr (1, ConcurrentSearchCtx_ResetClock now' c2, h2)"
    using True durationNS_exact [OF assms] run
    by (simp add: ConcurrentSearch_CheckTimer_def CONCURRENT_TIMEOUT_NS_def)
  show ?thesis
    using True res run props(1-3) f
    by (simp add: ConcurrentSearchCtx_ResetClock_def)
qed

theorem CheckTimer_yields_after_budget_witness:
  "valid_timespec \<lparr>tv_sec = 8, tv_nsec = 50000000\<rparr> \<and>
   valid_timespec \<lparr>tv_sec = 8, tv_nsec = 0\<rparr> \<and>
   valid_timespec (lastTime (example_ctx 1)) \<and>
   elapsed_ns \<lparr>tv_sec = 8, tv_nsec = 50000000\<rparr> (lastTime (example_ctx 1)) = 150000000 \<and>
   elapsed_ns \<lparr>tv_sec = 8, tv_nsec = 0\<rparr> (lastTime (example_ctx 1)) = 100000000 \<and>
   (\<exists>c' h'. ConcurrentSearch_CheckTimer example_open_key \<lparr>tv_sec = 8, tv_nsec = 50000000\<rparr>
        \<lparr>tv_sec = 8, tv_nsec = 50000700\<rparr> (example_ctx 1, []) = Inr (1, c', h') \<and>
      lastTime c' = \<lparr>tv_sec = 8, tv_nsec = 50000700\<rparr> \<and>
      filter is_ReopenCallback h' = [ReopenCallback 11 4 12, ReopenCallback 13 6 14]) \<and>
   ConcurrentSearch_CheckTimer example_open_key \<lparr>tv_sec = 8, tv_nsec = 0\<rparr>
        \<lparr>tv_sec = 8, tv_nsec = 700\<rparr> (example_ctx 1, []) = Inr (0, example_ctx 1, [])"
proof -
  have v: "valid_timespec \<lparr>tv_sec = 8, tv_nsec = 50000000\<rparr>"
      "valid_timespec \<lparr>tv_sec = 8, tv_nsec = 0\<rparr>"
      "valid_timespec (lastTime (example_ctx 1))"
    by (simp_all add: valid_timespec_def example_ctx_def)
  have e: "elapsed_ns \<lparr>tv_sec = 8, tv_nsec = 50000000\<rparr> (lastTime (example_ctx 1)) = 150000000"
      "elapsed_ns \<lparr>tv_sec = 8, tv_nsec = 0\<rparr> (lastTime (example_ctx 1)) = 100000000"
    by (simp_all add: elapsed_ns_def example_ctx_def)
  have k: "openKeys (example_ctx 1) = example_keys"
    by (simp add: example_ctx_def)
  show ?thesis
    using v e
      CheckTimer_yields_after_budget [OF v(1) v(3), of example_open_key
        "\<lparr>tv_sec = 8, tv_nsec = 50000700\<rparr>" "[]"]
      CheckTimer_yields_after_budget [OF v(2) v(3), of example_open_key
        "\<lparr>tv_sec = 8, tv_nsec = 700\<rparr>" "[]"]
    by (auto simp add: example_Unlock_Lock ConcurrentSearchCtx_ResetClock_def)
qed

section \<open>Properties of the dispatcher\<close>

text \<open>
  The copy loop, started at index \<open>i\<close> with \<open>n\<close> iterations to go on a live source
  vector of live strings: it returns, the new strings are the \<open>n\<close> addresses from
  \<open>brk\<close> on, each with the bytes of its source and owned by the new context, and
  every older string is untouched.
\<close>

lemma copy_args_run:
  assumes "vectors st src = Some ptrs" and "vectors st dst = Some ds" and "src \<noteq> dst"
    and "length ds = i + n" and "i + n \<le> length ptrs"
    and "\<forall>s \<in> set ptrs. s < brk st \<and> strings st s \<noteq> None"
  shows "\<exists>st'. copy_args tc src dst i n st = Inr st' \<and>
          brk st' = brk st + n \<and>
          vectors st' = (vectors st)(dst \<mapsto> take i ds @ map (\<lambda>k. brk st + k) [0..<n]) \<and>
          (\<forall>a. a < brk st \<or> brk st + n \<le> a \<longrightarrow> strings st' a = strings st a) \<and>
          (\<forall>k < n. strings st' (brk st + k) =
             Some \<lparr>str_bytes = str_bytes (the (strings st (ptrs ! (i + k)))), str_owner = tc\<rparr>) \<and>
          cmds st' = cmds st \<and> contexts st' = contexts st \<and> blocked st' = blocked st \<and>
          work st' = work st"
  using assms
proof (induction n arbitrary: i st ds)
  case 0
  then show ?case by (simp add: fun_upd_idem)
next
  case (Suc n)
  define b where "b = brk st"
  have i: "i < length ptrs" "i < length ds" using Suc.prems by simp_all
  then have mem: "ptrs ! i \<in> set ptrs" by simp
  with Suc.prems(6) obtain obj where obj: "strings st (ptrs ! i) = Some obj" and lt: "ptrs ! i < b"
    by (auto simp: b_def)
  define st1 where "st1 = st\<lparr>brk := Suc b,
      strings := (strings st)(b \<mapsto> \<lparr>str_bytes = str_bytes obj, str_owner = tc\<rparr>)\<rparr>"
  define st2 where "st2 = st1\<lparr>vectors := (vectors st1)(dst \<mapsto> ds[i := b])\<rparr>"
  have rd: "vec_read st src i = Some (ptrs ! i)"
    using Suc.prems(1) i by (simp add: vec_read_def)
  have cr: "RedisModule_CreateStringFromString tc (ptrs ! i) st = Inr (b, st1)"
    using obj by (simp add: RedisModule_CreateStringFromString_def alloc_def st1_def b_def)
  have wr: "vec_write st1 dst i b = Some st2"
    using Suc.prems(2) i by (simp add: vec_write_def st1_def st2_def)
  have step: "copy_args tc src dst i (Suc n) st = copy_args tc src dst (Suc i) n st2"
    by (simp add: rd cr wr)
  have p1: "vectors st2 src = Some ptrs" using Suc.prems(1,3) by (simp add: st2_def st1_def)
  have p2: "vectors st2 dst = Some (ds[i := b])" by (simp add: st2_def)
  have p4: "length (ds[i := b]) = Suc i + n" using Suc.prems(4) by simp
  have p5: "Suc i + n \<le> length ptrs" using Suc.prems(5) by simp
  have p6: "\<forall>s \<in> set ptrs. s < brk st2 \<and> strings st2 s \<noteq> None"
    using Suc.prems(6) by (auto simp: st2_def st1_def b_def)
  from Suc.IH [OF p1 p2 Suc.prems(3) p4 p5 p6] obtain st' where
    r: "copy_args tc src dst (Suc i) n st2 = Inr st'"
    and r1: "brk st' = brk st2 + n"
    and r2: "vectors st' = (vectors st2)(dst \<mapsto> take (Suc i) (ds[i := b]) @ map (\<lambda>k. brk st2 + k) [0..<n])"
    and r3: "\<forall>a. a < brk st2 \<or> brk st2 + n \<le> a \<longrightarrow> strings st' a = strings st2 a"
    and r4: "\<forall>k < n. strings st' (brk st2 + k) =
             Some \<lparr>str_bytes = str_bytes (the (strings st2 (ptrs ! (Suc i + k)))), str_owner = tc\<rparr>"
    and r5: "cmds st' = cmds st2" "contexts st' = contexts st2" "blocked st' = blocked st2"
      "work st' = work st2"
    by blast
  have b2: "brk st2 = Suc b" by (simp add: st2_def st1_def)
  have tk: "take (Suc i) (ds[i := b]) = take i ds @ [b]"
    using i by (simp add: take_Suc_conv_app_nth)
  have mp: "map (\<lambda>k. b + k) [0..<Suc n] = b # map (\<lambda>k. Suc b + k) [0..<n]"
  proof -
    have "[0..<Suc n] = 0 # map Suc [0..<n]"
      by (simp add: upt_conv_Cons map_Suc_upt del: upt_Suc)
    then show ?thesis by (simp add: comp_def)
  qed
  have v: "vectors st' = (vectors st)(dst \<mapsto> take i ds @ map (\<lambda>k. brk st + k) [0..<Suc n])"
    unfolding r2 b2 tk b_def [symmetric] mp by (simp add: st2_def st1_def)
  have s1: "\<forall>a. a < brk st \<or> brk st + Suc n \<le> a \<longrightarrow> strings st' a = strings st a"
    using r3 by (auto simp: b2 st2_def st1_def b_def)
  have old: "strings st2 (ptrs ! j) = strings st (ptrs ! j)" if "j < length ptrs" for j
  proof -
    from that have "ptrs ! j \<in> set ptrs" by simp
    with Suc.prems(6) have "ptrs ! j < b" by (simp add: b_def)
    then show ?thesis by (simp add: st2_def st1_def)
  qed
  have s2: "strings st' (brk st + k) =
             Some \<lparr>str_bytes = str_bytes (the (strings st (ptrs ! (i + k)))), str_owner = tc\<rparr>"
    if "k < Suc n" for k
  proof (cases k)
    case 0
    have "strings st' b = strings st2 b" using r3 by (simp add: b2)
    then show ?thesis using 0 obj by (simp add: st2_def st1_def b_def)
  next
    case (Suc j)
    with that have j: "j < n" by simp
    have "Suc i + j < length ptrs" using j Suc.prems(5) by simp
    from r4 j old [OF this] show ?thesis by (simp add: Suc b2 b_def)
  qed
  have f1: "copy_args tc src dst i (Suc n) st = Inr st'"
    using step r by simp
  have f2: "brk st' = brk st + Suc n"
    using r1 by (simp add: b2 b_def)
  have f3: "cmds st' = cmds st" "contexts st' = contexts st" "blocked st' = blocked st"
      "work st' = work st"
    using r5 by (simp_all add: st2_def st1_def)
  from f1 f2 v s1 s2 f3 show ?case by blast
qed

lemma dispatch_run:
  assumes ok: "store_ok st" and A: "vectors st args = Some ptrs"
    and n: "nargs = int (length ptrs)" and live: "\<forall>s \<in> set ptrs. strings st s \<noteq> None"
  shows "\<exists>st'. ConcurrentSearch_HandleRedisCommandEx poolType opt hnd rctx args nargs st =
            Inr (REDISMODULE_OK, st') \<and>
         work st' = (work st)(poolType := work st poolType @ [brk st]) \<and>
         cmds st' = (cmds st)(brk st \<mapsto> \<lparr>bc = Suc (brk st), cmd_ctx = Suc (Suc (brk st)), handler = hnd,
                       argv = Suc (Suc (Suc (brk st))), argc = nargs, options = opt\<rparr>) \<and>
         contexts st' = (contexts st)(Suc (Suc (brk st)) \<mapsto> \<lparr>of_client = Suc (brk st), auto_memory = True\<rparr>) \<and>
         vectors st' = (vectors st)(Suc (Suc (Suc (brk st))) \<mapsto> map (\<lambda>k. Suc (Suc (Suc (Suc (brk st)))) + k) [0..<length ptrs]) \<and>
         (\<forall>a. a < brk st \<longrightarrow> strings st' a = strings st a) \<and>
         (\<forall>k < length ptrs. strings st' (Suc (Suc (Suc (Suc (brk st)))) + k) =
             Some \<lparr>str_bytes = str_bytes (the (strings st (ptrs ! k))), str_owner = Suc (Suc (brk st))\<rparr>)"
proof -
  define b where "b = brk st"
  define c where "c = \<lparr>bc = Suc b, cmd_ctx = Suc (Suc b), handler = hnd,
                       argv = Suc (Suc (Suc b)), argc = nargs, options = opt\<rparr>"
  define st6 where "st6 =
     (let (p, st1) = alloc st;
          (b, st2) = RedisModule_BlockClient rctx st1;
          (tc, st3) = RedisModule_GetThreadSafeContext b st2;
          st4 = RedisModule_AutoMemory tc st3;
          (v, st5) = calloc_vector nargs st4
      in st5\<lparr>cmds := (cmds st5)(p \<mapsto>
                   \<lparr>bc = b, cmd_ctx = tc, handler = hnd, argv = v, argc = nargs, options = opt\<rparr>)\<rparr>)"
  have st6: "brk st6 = Suc (Suc (Suc (Suc b)))" "strings st6 = strings st"
      "vectors st6 = (vectors st)(Suc (Suc (Suc b)) \<mapsto> replicate (length ptrs) NULL)"
      "cmds st6 = (cmds st)(b \<mapsto> c)" "work st6 = work st"
      "contexts st6 = (contexts st)(Suc (Suc b) \<mapsto> \<lparr>of_client = Suc b, auto_memory = True\<rparr>)"
    by (simp_all add: st6_def alloc_def RedisModule_BlockClient_def
        RedisModule_GetThreadSafeContext_def RedisModule_AutoMemory_def calloc_vector_def
        Let_def n c_def b_def)
  have argslt: "args < b"
    using ok A by (auto simp: store_ok_def b_def)
  have slt: "\<forall>s \<in> set ptrs. s < b"
    using ok live by (auto simp: store_ok_def b_def)
  have unfold: "ConcurrentSearch_HandleRedisCommandEx poolType opt hnd rctx args nargs st =
      (case copy_args (Suc (Suc b)) args (Suc (Suc (Suc b))) 0 (length ptrs) st6 of
         Inl e \<Rightarrow> Inl e
       | Inr st7 \<Rightarrow> Inr (REDISMODULE_OK, ConcurrentSearch_ThreadPoolRun (brk st) poolType st7))"
    unfolding b_def
    by (simp add: ConcurrentSearch_HandleRedisCommandEx_def alloc_def RedisModule_BlockClient_def
        RedisModule_GetThreadSafeContext_def RedisModule_AutoMemory_def calloc_vector_def
        Let_def n st6_def)
  have q1: "vectors st6 args = Some ptrs" using A argslt by (simp add: st6)
  have q2: "vectors st6 (Suc (Suc (Suc b))) = Some (replicate (length ptrs) NULL)" by (simp add: st6)
  have q3: "args \<noteq> Suc (Suc (Suc b))" using argslt by simp
  have q4: "length (replicate (length ptrs) NULL) = 0 + length ptrs" by simp
  have q5: "0 + length ptrs \<le> length ptrs" by simp
  have q6: "\<forall>s \<in> set ptrs. s < brk st6 \<and> strings st6 s \<noteq> None"
    using slt live by (auto simp: st6)
  from copy_args_run [OF q1 q2 q3 q4 q5 q6, of "Suc (Suc b)"] obtain st7 where
    r: "copy_args (Suc (Suc b)) args (Suc (Suc (Suc b))) 0 (length ptrs) st6 = Inr st7"
    and r2: "vectors st7 = (vectors st6)(Suc (Suc (Suc b)) \<mapsto> take 0 (replicate (length ptrs) NULL) @
               map (\<lambda>k. brk st6 + k) [0..<length ptrs])"
    and r3: "\<forall>a. a < brk st6 \<or> brk st6 + length ptrs \<le> a \<longrightarrow> strings st7 a = strings st6 a"
    and r4: "\<forall>k < length ptrs. strings st7 (brk st6 + k) =
             Some \<lparr>str_bytes = str_bytes (the (strings st6 (ptrs ! (0 + k)))), str_owner = Suc (Suc b)\<rparr>"
    and r5: "cmds st7 = cmds st6" "contexts st7 = contexts st6" "work st7 = work st6"
    by blast
  define st' where "st' = ConcurrentSearch_ThreadPoolRun (brk st) poolType st7"
  have f0: "ConcurrentSearch_HandleRedisCommandEx poolType opt hnd rctx args nargs st =
            Inr (REDISMODULE_OK, st')"
    by (simp add: unfold r st'_def)
  have f1: "work st' = (work st)(poolType := work st poolType @ [b])"
    using r5 by (simp add: st'_def ConcurrentSearch_ThreadPoolRun_def st6 b_def)
  have f2: "cmds st' = (cmds st)(b \<mapsto> c)"
    using r5 by (simp add: st'_def ConcurrentSearch_ThreadPoolRun_def st6 b_def)
  have f3: "contexts st' = (contexts st)(Suc (Suc b) \<mapsto> \<lparr>of_client = Suc b, auto_memory = True\<rparr>)"
    using r5 by (simp add: st'_def ConcurrentSearch_ThreadPoolRun_def st6 b_def)
  have f4: "vectors st' = (vectors st)(Suc (Suc (Suc b)) \<mapsto> map (\<lambda>k. Suc (Suc (Suc (Suc b))) + k) [0..<length ptrs])"
    using r2 by (simp add: st'_def ConcurrentSearch_ThreadPoolRun_def st6 b_def)
  have f5: "\<forall>a. a < b \<longrightarrow> strings st' a = strings st a"
    using r3 by (simp add: st'_def ConcurrentSearch_ThreadPoolRun_def st6 b_def)
  have f6: "\<forall>k < length ptrs. strings st' (Suc (Suc (Suc (Suc b))) + k) =
             Some \<lparr>str_bytes = str_bytes (the (strings st (ptrs ! k))), str_owner = Suc (Suc b)\<rparr>"
    using r4 by (simp add: st'_def ConcurrentSearch_ThreadPoolRun_def st6 b_def)
  from f0 f1 f2 f3 f4 f5 f6 show ?thesis
    unfolding b_def c_def by blast
qed

text \<open>
  Claim C8. Dispatching a live argument vector of live strings (of any length, zero
  included) returns \<open>REDISMODULE_OK\<close> and queues one work item on the pool. The handler
  of that item is called with a context that did not exist before, and with a vector that
  is a different object from the caller's, made of string objects none of which is one of
  the caller's, holding the same bytes in the same order and owned by the new context.
  After the caller's vector and strings have been freed, the handler is still called with
  the same arguments and still finds the same bytes.
\<close>

theorem dispatch_copies_arguments:
  assumes ok: "store_ok st" and A: "vectors st args = Some ptrs"
    and n: "nargs = int (length ptrs)" and live: "\<forall>s \<in> set ptrs. strings st s \<noteq> None"
  shows "\<exists>st' p tc v ptrs'.
     ConcurrentSearch_HandleRedisCommandEx poolType opt hnd rctx args nargs st =
       Inr (REDISMODULE_OK, st') \<and>
     work st' poolType = work st poolType @ [p] \<and>
     threadHandleCommand_args st' p = Some (tc, v, nargs, p) \<and>
     v \<noteq> args \<and> vectors st v = None \<and> vectors st' v = Some ptrs' \<and>
     length ptrs' = length ptrs \<and> set ptrs' \<inter> set ptrs = {} \<and>
     (\<forall>i < length ptrs. strings st (ptrs' ! i) = None \<and>
        strings st' (ptrs' ! i) =
          Some \<lparr>str_bytes = str_bytes (the (strings st (ptrs ! i))), str_owner = tc\<rparr>) \<and>
     contexts st tc = None \<and> contexts st' tc \<noteq> None \<and>
     argv_strings st' v = argv_strings st args \<and>
     vectors (release_args args st') args = None \<and>
     (\<forall>s \<in> set ptrs. strings (release_args args st') s = None) \<and>
     threadHandleCommand_args (release_args args st') p = Some (tc, v, nargs, p) \<and>
     argv_strings (release_args args st') v = argv_strings st args"
proof -
  define b where "b = brk st"
  define tc where "tc = Suc (Suc b)"
  define v where "v = Suc (Suc (Suc b))"
  define ptrs' where "ptrs' = map (\<lambda>k. Suc (Suc (Suc (Suc b))) + k) [0..<length ptrs]"
  from dispatch_run [OF ok A n live, of poolType opt hnd rctx] obtain st' where
    run: "ConcurrentSearch_HandleRedisCommandEx poolType opt hnd rctx args nargs st =
            Inr (REDISMODULE_OK, st')"
    and w: "work st' = (work st)(poolType := work st poolType @ [b])"
    and c: "cmds st' = (cmds st)(b \<mapsto> \<lparr>bc = Suc b, cmd_ctx = tc, handler = hnd,
                       argv = v, argc = nargs, options = opt\<rparr>)"
    and x: "contexts st' = (contexts st)(tc \<mapsto> \<lparr>of_client = Suc b, auto_memory = True\<rparr>)"
    and vs: "vectors st' = (vectors st)(v \<mapsto> ptrs')"
    and s1: "\<forall>a. a < b \<longrightarrow> strings st' a = strings st a"
    and s2: "\<forall>k < length ptrs. strings st' (Suc (Suc (Suc (Suc b))) + k) =
             Some \<lparr>str_bytes = str_bytes (the (strings st (ptrs ! k))), str_owner = tc\<rparr>"
    unfolding b_def tc_def v_def ptrs'_def by blast
  have fresh: "strings st a = None" "vectors st a = None" "contexts st a = None" if "b \<le> a" for a
    using ok that by (fastforce simp: store_ok_def b_def)+
  have argslt: "args < b"
    using ok A by (auto simp: store_ok_def b_def)
  have slt: "s < b" if "s \<in> set ptrs" for s
    using ok live that by (auto simp: store_ok_def b_def)
  have len: "length ptrs' = length ptrs" by (simp add: ptrs'_def)
  have nth: "ptrs' ! i = Suc (Suc (Suc (Suc b))) + i" if "i < length ptrs" for i
    using that by (simp add: ptrs'_def)
  have ge: "b \<le> s" if "s \<in> set ptrs'" for s
    using that by (auto simp: ptrs'_def)
  have disj: "set ptrs' \<inter> set ptrs = {}"
    using ge slt by fastforce
  have t1: "work st' poolType = work st poolType @ [b]" by (simp add: w)
  have t2: "threadHandleCommand_args st' b = Some (tc, v, nargs, b)"
    by (simp add: threadHandleCommand_args_def c)
  have t3: "v \<noteq> args" using argslt by (simp add: v_def)
  have t4: "vectors st v = None" by (rule fresh) (simp add: v_def)
  have t5: "vectors st' v = Some ptrs'" by (simp add: vs)
  have t6: "strings st (ptrs' ! i) = None \<and>
        strings st' (ptrs' ! i) =
          Some \<lparr>str_bytes = str_bytes (the (strings st (ptrs ! i))), str_owner = tc\<rparr>"
    if "i < length ptrs" for i
    using that s2 fresh(1) [of "ptrs' ! i"] by (simp add: nth)
  have t7: "contexts st tc = None" by (rule fresh) (simp add: tc_def)
  have t8: "contexts st' tc \<noteq> None" by (simp add: x)
  have orig: "argv_strings st args = Some (map (\<lambda>s. Some (str_bytes (the (strings st s)))) ptrs)"
    using live by (auto simp: argv_strings_def A)
  have t9: "argv_strings st' v = argv_strings st args"
    unfolding orig by (simp add: argv_strings_def t5) (simp add: list_eq_iff_nth_eq len t6)
  have A': "vectors st' args = Some ptrs" using A t3 by (simp add: vs)
  have t10: "vectors (release_args args st') args = None"
    by (simp add: release_args_def A')
  have t11: "\<forall>s \<in> set ptrs. strings (release_args args st') s = None"
    by (simp add: release_args_def A')
  have t12: "threadHandleCommand_args (release_args args st') b = Some (tc, v, nargs, b)"
    by (simp add: threadHandleCommand_args_def release_args_def A' c)
  have keep: "strings (release_args args st') s = strings st' s" if "s \<in> set ptrs'" for s
    using that disj by (auto simp: release_args_def A')
  have t13: "argv_strings (release_args args st') v = argv_strings st' v"
    using t3 keep by (simp add: argv_strings_def release_args_def A' t5)
  from run t1 t2 t3 t4 t5 len disj t6 t7 t8 t9 t10 t11 t12 t13 show ?thesis
    by (intro exI [of _ st'] exI [of _ b] exI [of _ tc] exI [of _ v] exI [of _ ptrs']) simp
qed

lemma example_store_ok: "store_ok example_store"
  by (auto simp: store_ok_def example_store_def split: if_splits)

theorem dispatch_copies_arguments_witness:
  "store_ok example_store \<and> vectors example_store 3 = Some [1, 2] \<and>
   strings example_store 1 \<noteq> None \<and> strings example_store 2 \<noteq> None \<and>
   argv_strings example_store 3 = Some [Some ''FT.SEARCH'', Some ''idx''] \<and>
   (\<exists>st' p tc v.
      ConcurrentSearch_HandleRedisCommandEx 0 0 77 9 3 2 example_store = Inr (REDISMODULE_OK, st') \<and>
      threadHandleCommand_args (release_args 3 st') p = Some (tc, v, 2, p) \<and> v \<noteq> 3 \<and>
      argv_strings (release_args 3 st') 3 = None \<and>
      argv_strings (release_args 3 st') v = Some [Some ''FT.SEARCH'', Some ''idx''])"
proof -
  have h: "vectors example_store 3 = Some [1, 2]" "(2::int) = int (length [1::nat, 2])"
      "\<forall>s \<in> set [1, 2]. strings example_store s \<noteq> None"
    by (simp_all add: example_store_def)
  have a: "argv_strings example_store 3 = Some [Some ''FT.SEARCH'', Some ''idx'']"
    by (simp add: argv_strings_def example_store_def)
  have r: "argv_strings (release_args 3 st') 3 = None" if "vectors (release_args 3 st') 3 = None" for st'
    using that by (simp add: argv_strings_def)
  have l: "strings example_store 1 \<noteq> None" "strings example_store 2 \<noteq> None"
    by (simp_all add: example_store_def)
  show ?thesis
    using example_store_ok h(1) l a r
      dispatch_copies_arguments [OF example_store_ok h, of 0 0 77 9]
    by (simp only: a) blast
qed

section \<open>Properties of the asynchronous indexing queue\<close>

lemma qsort_slot_comparator:
  assumes "2 \<le> length (pending st)"
  shows "qsort (\<lambda>arr. sortPending st) (pending st) = Inl NotASpecDocQueue"
proof -
  from assms obtain n where n: "length (pending st) - 1 = Suc n"
    by (cases "length (pending st) - 1") auto
  show ?thesis
    using n by (simp add: qsort_def sortPending_def as_SpecDocQueue_def)
qed

text \<open>
  Claim C1 says that the worker sorts the pending array by dict size and selects the
  queue with the largest dict, so that of two specs with 5 and 1 pending documents the
  one with 5 is selected first. In the code \<open>qsort\<close> hands \<open>sortPending\<close> the
  addresses of two slots of the array and \<open>sortPending\<close> reads them as queues: with
  the two specs pending the step never compares the dict sizes 5 and 1, and its result is
  \<open>NotASpecDocQueue\<close> instead of the selection of spec 1. With the comparator that
  reads the queue pointers kept in the slots, the same \<open>qsort\<close> puts spec 1 last and
  the same selection takes spec 1 with its five entries.
\<close>

theorem select_ignores_queue_depth:
  "aiThread_select two_specs = Some (Inl NotASpecDocQueue) \<and>
   (\<exists>st'. qsort (sortPending_by_depth two_specs) (pending two_specs) = Inr [2, 1] \<and>
      aiThread_take [2, 1] two_specs = Inr (1, [(101, 201), (102, 202), (103, 203), (104, 204),
                                              (105, 205)], st'))"
proof -
  have p: "pending two_specs = [1, 2]" by (simp add: two_specs_def)
  have "2 \<le> length (pending two_specs)" by (simp add: p)
  then have a: "aiThread_select two_specs = Some (Inl NotASpecDocQueue)"
    by (simp add: aiThread_select_def qsort_slot_comparator) (simp add: p)
  have q1: "queues two_specs (Suc 0) = Some \<lparr>spec = 1, entries = [(101, 201), (102, 202), (103, 203), (104, 204),
                                              (105, 205)],
                       state = SDQ_S_PENDING, nactive = 0\<rparr>"
    and q2: "queues two_specs 2 = Some \<lparr>spec = 2, entries = [(106, 206)], state = SDQ_S_PENDING, nactive = 0\<rparr>"
    by (simp_all add: two_specs_def)
  have c: "sortPending_by_depth two_specs [Suc 0, 2] (SlotPtr 0) (SlotPtr (Suc 0)) = Inr 4"
    by (simp add: sortPending_by_depth_def sortPending_def as_SpecDocQueue_def q1 q2
        dictSize_def to_int32_def)
  have b: "qsort (sortPending_by_depth two_specs) (pending two_specs) = Inr [2, 1]"
    by (simp add: p qsort_def c)
  have t: "\<exists>st'. aiThread_take [2, 1] two_specs = Inr (1, [(101, 201), (102, 202), (103, 203), (104, 204),
                                              (105, 205)], st')"
    by (simp add: aiThread_take_def q1 Let_def)
  from a b t show ?thesis by blast
qed

text \<open>
  Claim C3 says that an entry whose \<open>AddDocumentCtx\<close> cannot be initialised is logged
  and dropped, with its record freed, its key string released and the host lock released,
  and that the drain goes on. In the code the failure is logged and the loop goes to the
  next entry at once: after a batch of one such entry the worker still holds the host
  lock, the record is still allocated and the key string still has both its references;
  the request for the host lock that follows the loop is then made by its holder and
  \<open>indexBatch\<close> does not return. The path beside it, where \<open>Indexer_Add\<close> fails,
  releases the lock, frees the record and releases the key string.
\<close>

theorem indexBatch_init_failure_keeps_host_lock:
  "(\<exists>st'. indexBatch_loop (\<lambda>k. False) (\<lambda>k. True) False [(106, 206)] one_failing = Inr st' \<and>
      gil st' \<and> calls st' = [HostLock, InitACTX 106 False, CouldntIndex 106] \<and>
      rids st' 206 = Some \<lparr>kstr = 106, iia = 0\<rparr> \<and> kstrs st' 106 = Some (''doc6'', 2)) \<and>
   indexBatch (\<lambda>k. False) (\<lambda>k. True) False 2 [(106, 206)] one_failing = Inl HostLockHeld \<and>
   (\<exists>st'. indexBatch_loop (\<lambda>k. True) (\<lambda>k. False) False [(106, 206)] one_failing = Inr st' \<and>
      \<not> gil st' \<and>
      calls st' = [HostLock, InitACTX 106 True, HostUnlock, IndexerAdd 106 False,
                   CouldntIndex 106, ACTXFree 106] \<and>
      rids st' 206 = None \<and> kstrs st' 106 = Some (''doc6'', 1))"
  by (simp add: indexBatch_def indexBatch_commit_def one_failing_def example_keystore_def
      RedisModule_ThreadSafeContextLock_def RedisModule_ThreadSafeContextUnlock_def
      RedisModule_FreeString_def rm_free_rid_def Let_def)

lemma flag_absent: "(s :: 32 word) AND (p OR r) = 0 \<Longrightarrow> s AND p = 0"
proof -
  assume a: "s AND (p OR r) = 0"
  have "s AND p = (s AND (p OR r)) AND p"
    by (auto simp add: bit_eq_iff bit_simps)
  with a show ?thesis by simp
qed

lemma flag_set: "p \<noteq> 0 \<Longrightarrow> ((s :: 32 word) OR p) AND p \<noteq> 0"
  by (simp add: and.commute)

lemma flags_consts:
  "SDQ_S_PROCESSING AND SDQ_S_PENDING = 0" "SDQ_S_PENDING AND SDQ_S_PENDING \<noteq> 0"
  "SDQ_S_PENDING \<noteq> 0"
  "SDQ_S_PROCESSING AND (SDQ_S_PENDING OR SDQ_S_PROCESSING) \<noteq> 0"
  "(SDQ_S_PROCESSING AND NOT SDQ_S_PROCESSING) AND SDQ_S_PENDING = 0"
  "(0 :: 32 word) AND (SDQ_S_PENDING OR SDQ_S_PROCESSING) = 0"
  by (simp_all add: SDQ_S_PROCESSING_def SDQ_S_PENDING_def)

lemma key_bytes_retain:
  "kstrs st k = Some (b, n) \<Longrightarrow>
   key_bytes ((kstrs st)(k \<mapsto> (b, m))) x = key_bytes (kstrs st) x"
  by (simp add: key_bytes_def)

lemma dictFind_retain:
  "kstrs st k = Some (b, n) \<Longrightarrow>
   dictFind ((kstrs st)(k \<mapsto> (b, m))) d x = dictFind (kstrs st) d x"
  by (simp add: dictFind_def key_bytes_retain)

lemma filter_distinct_le1:
  "distinct (map f xs) \<Longrightarrow> length (filter (\<lambda>x. f x = c) xs) \<le> 1"
proof (induction xs)
  case Nil
  then show ?case by simp
next
  case (Cons a xs)
  show ?case
  proof (cases "f a = c")
    case True
    have "f a \<notin> f ` set xs" using Cons.prems by simp
    then have "\<forall>x \<in> set xs. f x \<noteq> c" using True by (metis imageI)
    then have "filter (\<lambda>x. f x = c) xs = []" by (simp add: filter_empty_conv)
    with True show ?thesis by simp
  next
    case False
    with Cons show ?thesis by simp
  qed
qed

text \<open>
  What a submission does to the pending array and to the states of the queues: nothing
  (the key was a duplicate, or the queue was pending or being processed already), or it
  appends the spec and sets \<open>PENDING\<close> on a queue that had neither flag.
\<close>

lemma Submit_view:
  fixes st sp attrs k
  defines "st' \<equiv> snd (AIQ_Submit sp attrs k st)"
  shows "draining st' = draining st \<and> (\<forall>q. q \<noteq> sp \<longrightarrow> queues st' q = queues st q) \<and>
     ((pending st' = pending st \<and>
         map_option state (queues st' sp) = map_option state (queues st sp))
      \<or> (pending st' = pending st \<and> queues st sp = None \<and>
         map_option state (queues st' sp) = Some 0)
      \<or> (\<exists>s. pending st' = pending st @ [sp] \<and>
            (queues st sp = None \<and> s = 0 \<or> map_option state (queues st sp) = Some s) \<and>
            s AND (SDQ_S_PENDING OR SDQ_S_PROCESSING) = 0 \<and>
            map_option state (queues st' sp) = Some (s OR SDQ_S_PENDING)))"
  unfolding st'_def
  by (cases "queues st sp"; cases "kstrs st k")
    (auto simp: AIQ_Submit_def rm_calloc_rid_def RedisModule_RetainString_def
      SpecDocQueue_Create_def RedisModule_FreeString_def rm_free_rid_def Let_def
      split: option.splits if_splits prod.splits)

lemma inv_start:
  "aiq_initial st \<Longrightarrow> pending_inv st \<and> worker_inv st"
  by (simp add: aiq_initial_def pending_inv_def worker_inv_def)

lemma inv_submit:
  assumes "pending_inv st" and "worker_inv st"
  shows "pending_inv (snd (AIQ_Submit sp attrs k st)) \<and>
         worker_inv (snd (AIQ_Submit sp attrs k st))"
proof -
  define st' where "st' = snd (AIQ_Submit sp attrs k st)"
  have d: "draining st' = draining st" and oth: "\<And>q. q \<noteq> sp \<Longrightarrow> queues st' q = queues st q"
    and cases: "(pending st' = pending st \<and>
         map_option state (queues st' sp) = map_option state (queues st sp))
      \<or> (pending st' = pending st \<and> queues st sp = None \<and>
         map_option state (queues st' sp) = Some 0)
      \<or> (\<exists>s. pending st' = pending st @ [sp] \<and>
            (queues st sp = None \<and> s = 0 \<or> map_option state (queues st sp) = Some s) \<and>
            s AND (SDQ_S_PENDING OR SDQ_S_PROCESSING) = 0 \<and>
            map_option state (queues st' sp) = Some (s OR SDQ_S_PENDING))"
    using Submit_view [of sp attrs k st] by (simp_all add: st'_def)
  have dist: "distinct (pending st)"
    and mem: "\<And>q. q \<in> set (pending st) \<longleftrightarrow>
           (\<exists>s. map_option state (queues st q) = Some s \<and> s AND SDQ_S_PENDING \<noteq> 0)"
    using assms(1) by (auto simp: pending_inv_def)
  have wrk: "\<And>q. draining st = Some q \<Longrightarrow> map_option state (queues st q) = Some SDQ_S_PROCESSING"
    using assms(2) by (auto simp: worker_inv_def)
  have goal: "distinct (pending st') \<and>
      (\<forall>q. q \<in> set (pending st') \<longleftrightarrow>
           (\<exists>s. map_option state (queues st' q) = Some s \<and> s AND SDQ_S_PENDING \<noteq> 0)) \<and>
      (\<forall>q. draining st' = Some q \<longrightarrow> map_option state (queues st' q) = Some SDQ_S_PROCESSING)"
    (is ?G)
  proof -
    from cases consider
      (same) "pending st' = pending st"
        "map_option state (queues st' sp) = map_option state (queues st sp)"
    | (created) "pending st' = pending st" "queues st sp = None"
        "map_option state (queues st' sp) = Some 0"
    | (appended) s where "pending st' = pending st @ [sp]"
        "queues st sp = None \<and> s = 0 \<or> map_option state (queues st sp) = Some s"
        "s AND (SDQ_S_PENDING OR SDQ_S_PROCESSING) = 0"
        "map_option state (queues st' sp) = Some (s OR SDQ_S_PENDING)"
      by (elim disjE exE) (simp, simp, metis)
    then show ?G
    proof cases
    case same
    note p = same(1) and s = same(2)
    have "map_option state (queues st' q) = map_option state (queues st q)" for q
      using s oth by (cases "q = sp") simp_all
    then show ?G using p d dist mem wrk by simp
  next
    case created
    note p = created(1) and none = created(2) and s = created(3)
    have notin: "sp \<notin> set (pending st)" using mem [of sp] none by simp
    have nodr: "draining st \<noteq> Some sp" using wrk [of sp] none by auto
    have "q \<in> set (pending st') \<longleftrightarrow>
           (\<exists>s. map_option state (queues st' q) = Some s \<and> s AND SDQ_S_PENDING \<noteq> 0)" for q
      using p s oth [of q] mem [of q] notin by (cases "q = sp") auto
    moreover have "map_option state (queues st' q) = Some SDQ_S_PROCESSING"
      if "draining st' = Some q" for q
      using that d nodr oth [of q] wrk [of q] by (cases "q = sp") simp_all
    ultimately show ?G using p dist by simp
  next
    case (appended s)
    note p = appended(1) and old = appended(2) and fl = appended(3) and new = appended(4)
    have sp0: "s AND SDQ_S_PENDING = 0" using fl by (rule flag_absent)
    have notin: "sp \<notin> set (pending st)"
      using mem [of sp] old sp0 by auto
    have nodr: "draining st \<noteq> Some sp"
      using wrk [of sp] old fl flags_consts(4) by auto
    have "q \<in> set (pending st') \<longleftrightarrow>
           (\<exists>s. map_option state (queues st' q) = Some s \<and> s AND SDQ_S_PENDING \<noteq> 0)" for q
      using p new oth [of q] mem [of q] flag_set [OF flags_consts(3), of s]
      by (cases "q = sp") auto
    moreover have "map_option state (queues st' q) = Some SDQ_S_PROCESSING"
      if "draining st' = Some q" for q
      using that d nodr oth [of q] wrk [of q] by (cases "q = sp") simp_all
    ultimately show ?G using p dist notin by simp
  qed
  qed
  then show ?thesis
    unfolding st'_def [symmetric] pending_inv_def worker_inv_def by auto
qed

lemma inv_select:
  assumes "pending_inv st" and "worker_inv st" and "pending st \<noteq> []"
    and "mset arr = mset (pending st)" and "aiThread_take arr st = Inr (dq, old, st')"
  shows "pending_inv st' \<and> worker_inv st'"
proof -
  have ne: "arr \<noteq> []" using assms(3,4) by auto
  have dist: "distinct arr" using assms(1,4) by (metis pending_inv_def mset_eq_imp_distinct_iff)
  have sets: "set arr = set (pending st)" using assms(4) by (rule mset_eq_setD)
  have lst: "arr ! (length arr - Suc 0) = last arr" using ne by (simp add: last_conv_nth)
  have del: "array_del_fast arr (length arr - Suc 0) = butlast arr"
    using ne by (simp add: array_del_fast_def lst [symmetric] list_update_same_conv)
  from assms(5) obtain q where q: "queues st (last arr) = Some q"
    and dq: "dq = last arr"
    and st': "st' = st\<lparr>pending := butlast arr,
        queues := (queues st)(last arr \<mapsto> q\<lparr>entries := [], nactive := dictSize (entries q),
                         state := SDQ_S_PROCESSING\<rparr>),
        draining := Some (last arr)\<rparr>"
    by (auto simp: aiThread_take_def Let_def lst del split: option.splits)
  have bl: "set (butlast arr) = set arr - {last arr}"
    using ne dist by (metis append_butlast_last_id distinct_append distinct.simps(2) 
        Diff_insert_absorb Un_insert_right append_Nil2 list.simps(15) set_append
        disjoint_insert(1) insert_Diff1 Diff_insert0 Un_empty_right empty_set)
  have mem: "\<And>x. x \<in> set (pending st) \<longleftrightarrow>
           (\<exists>d. queues st x = Some d \<and> state d AND SDQ_S_PENDING \<noteq> 0)"
    using assms(1) by (auto simp: pending_inv_def)
  have "pending_inv st'"
    unfolding pending_inv_def
    using dist mem flags_consts(1) by (auto simp: st' bl sets distinct_butlast)
  moreover have "worker_inv st'"
    by (simp add: worker_inv_def st')
  ultimately show ?thesis by simp
qed

lemma inv_finish:
  assumes "pending_inv st" and "worker_inv st" and "draining st = Some dq"
    and "indexBatch_finish dq st = Inr st'"
  shows "pending_inv st' \<and> worker_inv st'"
proof -
  from assms(2,3) obtain q where q: "queues st dq = Some q" and s: "state q = SDQ_S_PROCESSING"
    by (auto simp: worker_inv_def)
  have mem: "\<And>x. x \<in> set (pending st) \<longleftrightarrow>
           (\<exists>d. queues st x = Some d \<and> state d AND SDQ_S_PENDING \<noteq> 0)"
    and dist: "distinct (pending st)"
    using assms(1) by (auto simp: pending_inv_def)
  have notin: "dq \<notin> set (pending st)"
    using mem [of dq] q s flags_consts(1) by simp
  have w: "worker_inv st'"
    using assms(4) by (auto simp: indexBatch_finish_def worker_inv_def q Let_def split: if_splits)
  have "pending_inv st'"
    unfolding pending_inv_def
    using assms(4) dist notin mem flags_consts(2,5)
    by (auto simp: indexBatch_finish_def q s Let_def split: if_splits)
  with w show ?thesis by simp
qed

text \<open>
  The drain writes neither the pending array, nor a queue, nor the worker's \<open>dq\<close>; the
  two invariants read nothing else.
\<close>

lemma indexBatch_loop_frame:
  "indexBatch_loop init_ok add_ok deleted old st = Inr st' \<Longrightarrow>
   pending st' = pending st \<and> queues st' = queues st \<and> draining st' = draining st"
proof (induction old arbitrary: st)
  case Nil
  then show ?case by simp
next
  case (Cons e es)
  show ?case
  proof (cases deleted)
    case True
    with Cons.prems show ?thesis by simp
  next
    case False
    from Cons.prems False obtain rid where rid: "rids st (snd e) = Some rid"
      by (cases "rids st (snd e)") simp_all
    from Cons.prems False rid have ng: "\<not> gil st"
      by (auto simp: RedisModule_ThreadSafeContextLock_def split: if_splits)
    define st1 where "st1 = st\<lparr>gil := True, calls := calls st @ [HostLock]\<rparr>"
    have lk: "RedisModule_ThreadSafeContextLock st = Inr st1"
      using ng by (simp add: RedisModule_ThreadSafeContextLock_def st1_def)
    show ?thesis
    proof (cases "init_ok (kstr rid)")
      case no: False
      have "indexBatch_loop init_ok add_ok deleted es
              (st1\<lparr>calls := calls st1 @ [InitACTX (kstr rid) False, CouldntIndex (kstr rid)]\<rparr>)
            = Inr st'"
        using Cons.prems False rid lk no by simp
      from Cons.IH [OF this] show ?thesis by (simp add: st1_def)
    next
      case yes: True
      define st4 where "st4 =
        (let st2 = RedisModule_ThreadSafeContextUnlock
                                 (st1\<lparr>calls := calls st1 @ [InitACTX (kstr rid) True]\<rparr>);
                         st3 = (if \<not> add_ok (kstr rid)
                                then st2\<lparr>calls := calls st2 @
                                       [IndexerAdd (kstr rid) False, CouldntIndex (kstr rid),
                                        ACTXFree (kstr rid)]\<rparr>
                                else st2\<lparr>calls := calls st2 @ [IndexerAdd (kstr rid) True]\<rparr>)
         in rm_free_rid (snd e) (RedisModule_FreeString (kstr rid) st3))"
      have "indexBatch_loop init_ok add_ok deleted es st4 = Inr st'"
        using Cons.prems False rid lk yes by (simp add: st4_def Let_def)
      from Cons.IH [OF this] have "pending st' = pending st4 \<and> queues st' = queues st4 \<and>
          draining st' = draining st4" .
      moreover have "pending st4 = pending st \<and> queues st4 = queues st \<and>
          draining st4 = draining st"
        by (simp add: st4_def st1_def Let_def rm_free_rid_def RedisModule_FreeString_def
            RedisModule_ThreadSafeContextUnlock_def split: option.splits prod.splits)
      ultimately show ?thesis by simp
    qed
  qed
qed

lemma indexBatch_commit_frame:
  "indexBatch_commit deleted st = Inr st' \<Longrightarrow>
   pending st' = pending st \<and> queues st' = queues st \<and> draining st' = draining st"
  by (auto simp: indexBatch_commit_def RedisModule_ThreadSafeContextLock_def
      RedisModule_ThreadSafeContextUnlock_def split: if_splits)

lemma inv_frame:
  assumes "pending_inv st" and "worker_inv st"
    and "pending st' = pending st \<and> queues st' = queues st \<and> draining st' = draining st"
  shows "pending_inv st' \<and> worker_inv st'"
  using assms by (simp add: pending_inv_def worker_inv_def)

lemma reachable_inv:
  "aiq_reachable st \<Longrightarrow> pending_inv st \<and> worker_inv st"
proof (induction rule: aiq_reachable.induct)
  case (start st)
  then show ?case by (rule inv_start)
next
  case (submit st sp attrs k)
  then show ?case by (simp add: inv_submit)
next
  case (select st arr dq old st')
  then show ?case using inv_select by blast
next
  case (drain st dq init_ok add_ok deleted old st')
  then show ?case using inv_frame indexBatch_loop_frame by blast
next
  case (commit st dq deleted st')
  then show ?case using inv_frame indexBatch_commit_frame by blast
next
  case (finish st dq st')
  then show ?case using inv_finish by blast
qed

lemma qsort_sift_mset:
  "i < length arr \<Longrightarrow> qsort_sift cmp i arr = Inr arr' \<Longrightarrow> mset arr' = mset arr"
proof (induction i arbitrary: arr)
  case 0
  then show ?case by simp
next
  case (Suc j)
  show ?case
  proof (cases "cmp arr (SlotPtr j) (SlotPtr (Suc j))")
    case (Inl e)
    with Suc.prems show ?thesis by simp
  next
    case (Inr r)
    show ?thesis
    proof (cases "0 < r")
      case True
      have sw: "mset (arr[j := arr ! Suc j, Suc j := arr ! j]) = mset arr"
        using Suc.prems(1) by (simp add: mset_swap)
      have "qsort_sift cmp j (arr[j := arr ! Suc j, Suc j := arr ! j]) = Inr arr'"
        using Suc.prems(2) Inr True by simp
      then have "mset arr' = mset (arr[j := arr ! Suc j, Suc j := arr ! j])"
        using Suc.prems(1) by (intro Suc.IH) simp_all
      with sw show ?thesis by simp
    next
      case False
      with Suc.prems Inr show ?thesis by simp
    qed
  qed
qed

lemma qsort_sift_length:
  "qsort_sift cmp i arr = Inr arr' \<Longrightarrow> length arr' = length arr"
proof (induction i arbitrary: arr)
  case 0
  then show ?case by simp
next
  case (Suc j)
  then show ?case
    by (cases "cmp arr (SlotPtr j) (SlotPtr (Suc j))") (auto split: if_splits)
qed

lemma qsort_from_mset:
  "i + n \<le> length arr \<Longrightarrow> qsort_from cmp i n arr = Inr arr' \<Longrightarrow> mset arr' = mset arr"
proof (induction n arbitrary: i arr)
  case 0
  then show ?case by simp
next
  case (Suc n)
  from Suc.prems(2) obtain arr1 where s: "qsort_sift cmp i arr = Inr arr1"
    and r: "qsort_from cmp (Suc i) n arr1 = Inr arr'"
    by (cases "qsort_sift cmp i arr") simp_all
  have "i < length arr" using Suc.prems(1) by simp
  then have m: "mset arr1 = mset arr" using s by (rule qsort_sift_mset)
  have "length arr1 = length arr" using s by (rule qsort_sift_length)
  then have "Suc i + n \<le> length arr1" using Suc.prems(1) by simp
  then have "mset arr' = mset arr1" using r by (rule Suc.IH)
  with m show ?case by simp
qed

lemma qsort_mset: "qsort cmp arr = Inr arr' \<Longrightarrow> mset arr' = mset arr"
proof (cases "arr = []")
  case True
  assume "qsort cmp arr = Inr arr'"
  with True show ?thesis by (simp add: qsort_def)
next
  case False
  assume q: "qsort cmp arr = Inr arr'"
  from False have "1 + (length arr - 1) \<le> length arr"
    by (cases arr) simp_all
  then show ?thesis using q unfolding qsort_def by (rule qsort_from_mset)
qed

text \<open>
  A selection by the worker that returns is one of the steps of the queue, whatever the
  comparator made of the order.
\<close>

lemma aiThread_select_reachable:
  assumes "aiq_reachable st" and "draining st = None"
    and "aiThread_select st = Some (Inr (dq, old, st'))"
  shows "aiq_reachable st'"
proof -
  from assms(3) have ne: "pending st \<noteq> []"
    by (auto simp: aiThread_select_def split: if_splits)
  with assms(3) obtain arr where q: "qsort (\<lambda>arr. sortPending st) (pending st) = Inr arr"
    and t: "aiThread_take arr st = Inr (dq, old, st')"
    by (auto simp: aiThread_select_def split: sum.splits)
  from q have "mset arr = mset (pending st)" by (rule qsort_mset)
  with assms(1,2) ne show ?thesis using t by (rule aiq_reachable.select)
qed

lemma run_submitted_fields:
  "pending run_submitted = [5]" "draining run_submitted = None"
  "queues run_submitted 5 =
     Some \<lparr>spec = 5, entries = [(101, 201)], state = SDQ_S_PENDING, nactive = 0\<rparr>"
  "kstrs run_submitted 102 = Some (''doc2'', 2)" "kstrs run_submitted 101 = Some (''doc1'', 3)"
  "next_rid run_submitted = 202" "rids run_submitted 201 = Some \<lparr>kstr = 101, iia = 0\<rparr>"
  "gil run_submitted = False" "calls run_submitted = []"
  by (simp_all add: run_submitted_def AIQ_Submit_def aiq_start_def example_keystore_def
      rm_calloc_rid_def RedisModule_RetainString_def SpecDocQueue_Create_def dictAdd_def
      dictFind_def dictSize_def SDQ_S_PENDING_def SDQ_S_PROCESSING_def Let_def)

lemma run_selected_take:
  "aiThread_take [5] run_submitted = Inr (5, [(101, 201)], run_selected)"
  by (simp add: aiThread_take_def run_submitted_fields array_del_fast_def dictSize_def
      run_selected_def Let_def)

lemma run_resubmitted_fields:
  "pending run_resubmitted = []" "draining run_resubmitted = Some 5"
  "queues run_resubmitted 5 =
     Some \<lparr>spec = 5, entries = [(102, 202)], state = SDQ_S_PROCESSING, nactive = 1\<rparr>"
  "rids run_resubmitted 201 = Some \<lparr>kstr = 101, iia = 0\<rparr>"
  "kstrs run_resubmitted 101 = Some (''doc1'', 3)"
  "gil run_resubmitted = False" "calls run_resubmitted = []"
  by (simp_all add: run_resubmitted_def AIQ_Submit_def run_selected_def run_submitted_fields
      rm_calloc_rid_def RedisModule_RetainString_def key_bytes_def dictAdd_def
      dictFind_def dictSize_def SDQ_S_PENDING_def SDQ_S_PROCESSING_def Let_def)

lemma run_looped_loop:
  "indexBatch_loop (\<lambda>k. True) (\<lambda>k. True) False [(101, 201)] run_resubmitted = Inr run_looped"
  by (simp add: run_resubmitted_fields RedisModule_ThreadSafeContextLock_def
      RedisModule_ThreadSafeContextUnlock_def RedisModule_FreeString_def rm_free_rid_def
      run_looped_def Let_def)

lemma run_drained_commit:
  "indexBatch_commit False run_looped = Inr run_drained"
  by (simp add: indexBatch_commit_def RedisModule_ThreadSafeContextLock_def
      RedisModule_ThreadSafeContextUnlock_def run_looped_def run_drained_def)

lemma run_drained_fields:
  "pending run_drained = []" "draining run_drained = Some 5"
  "queues run_drained 5 =
     Some \<lparr>spec = 5, entries = [(102, 202)], state = SDQ_S_PROCESSING, nactive = 1\<rparr>"
  by (simp_all add: run_drained_def run_looped_def run_resubmitted_fields)

lemma run_finished_finish:
  "indexBatch_finish 5 run_drained = Inr run_finished"
  by (simp add: indexBatch_finish_def run_drained_fields dictSize_def run_finished_def
      Let_def)

lemma run_indexBatch:
  "indexBatch (\<lambda>k. True) (\<lambda>k. True) False 5 [(101, 201)] run_resubmitted = Inr run_finished"
  by (simp only: indexBatch_def run_looped_loop run_drained_commit run_finished_finish
      sum.case)

lemma run_selected_reachable: "aiq_reachable run_selected"
proof -
  have "aiq_reachable aiq_start"
    by (rule aiq_reachable.start) (simp add: aiq_initial_def aiq_start_def)
  then have "aiq_reachable run_submitted"
    unfolding run_submitted_def by (rule aiq_reachable.submit)
  then show ?thesis
    by (rule aiq_reachable.select [where arr = "[5]"])
      (simp_all add: run_submitted_fields run_selected_take)
qed

lemma run_drained_reachable: "aiq_reachable run_drained"
proof -
  have r: "aiq_reachable run_resubmitted"
    unfolding run_resubmitted_def using run_selected_reachable by (rule aiq_reachable.submit)
  then have "aiq_reachable run_looped"
    using run_resubmitted_fields(2) run_looped_loop by (rule aiq_reachable.drain)
  moreover have "draining run_looped = Some 5"
    by (simp add: run_looped_def run_resubmitted_fields)
  ultimately show ?thesis
    using run_drained_commit by (rule aiq_reachable.commit)
qed

lemma run_reachable: "aiq_reachable run_finished"
  using run_drained_reachable run_drained_fields(2) run_finished_finish
  by (rule aiq_reachable.finish)

text \<open>
  Claim C4. In every state the queue can be in while its mutex is free, the pending array
  has no queue twice and a queue is in it exactly when the queue exists with \<open>PENDING\<close>
  in its state (and the queue the worker is draining has the state \<open>PROCESSING\<close>
  alone). From any state with these two properties, each operation leads to a state with
  them again: a submission, the selection by the worker (for every order in which the
  sort may have left the array), the drain of the batch (its loop, its commit, and any
  instant of it, as it writes none of the pending array, the queues and the worker's
  \<open>dq\<close>), and the end of the batch for the queue being drained.
\<close>

theorem pending_list_invariant:
  "(aiq_reachable st \<longrightarrow>
      distinct (pending st) \<and>
      (\<forall>q. q \<in> set (pending st) \<longleftrightarrow>
           (\<exists>dq. queues st q = Some dq \<and> state dq AND SDQ_S_PENDING \<noteq> 0)) \<and>
      pending_inv st \<and> worker_inv st) \<and>
   (pending_inv st \<and> worker_inv st \<longrightarrow>
      pending_inv (snd (AIQ_Submit sp attrs k st)) \<and>
      worker_inv (snd (AIQ_Submit sp attrs k st)) \<and>
      (\<forall>arr dq old st'. draining st = None \<and> pending st \<noteq> [] \<and>
          mset arr = mset (pending st) \<and> aiThread_take arr st = Inr (dq, old, st') \<longrightarrow>
          pending_inv st' \<and> worker_inv st') \<and>
      (\<forall>old st'. indexBatch_loop init_ok add_ok deleted old st = Inr st' \<longrightarrow>
          pending_inv st' \<and> worker_inv st') \<and>
      (\<forall>st'. indexBatch_commit deleted st = Inr st' \<longrightarrow> pending_inv st' \<and> worker_inv st') \<and>
      (\<forall>st'. pending st' = pending st \<and> queues st' = queues st \<and> draining st' = draining st \<longrightarrow>
          pending_inv st' \<and> worker_inv st') \<and>
      (\<forall>dq st'. draining st = Some dq \<and> indexBatch_finish dq st = Inr st' \<longrightarrow>
          pending_inv st' \<and> worker_inv st') \<and>
      (\<forall>dq old st'. draining st = Some dq \<and>
          indexBatch init_ok add_ok deleted dq old st = Inr st' \<longrightarrow>
          pending_inv st' \<and> worker_inv st'))"
proof (intro conjI impI)
  assume r: "aiq_reachable st"
  from reachable_inv [OF r] show "pending_inv st" "worker_inv st" by simp_all
  then show "distinct (pending st)"
    and "\<forall>q. q \<in> set (pending st) \<longleftrightarrow>
           (\<exists>dq. queues st q = Some dq \<and> state dq AND SDQ_S_PENDING \<noteq> 0)"
    by (simp_all add: pending_inv_def)
next
  assume "pending_inv st \<and> worker_inv st"
  then have i: "pending_inv st" "worker_inv st" by simp_all
  from inv_submit [OF i] show "pending_inv (snd (AIQ_Submit sp attrs k st))"
    and "worker_inv (snd (AIQ_Submit sp attrs k st))" by simp_all
  show "\<forall>arr dq old st'. draining st = None \<and> pending st \<noteq> [] \<and>
          mset arr = mset (pending st) \<and> aiThread_take arr st = Inr (dq, old, st') \<longrightarrow>
          pending_inv st' \<and> worker_inv st'"
    using inv_select [OF i] by blast
  show lp: "\<forall>old st'. indexBatch_loop init_ok add_ok deleted old st = Inr st' \<longrightarrow>
          pending_inv st' \<and> worker_inv st'"
    using inv_frame [OF i] indexBatch_loop_frame by blast
  show "\<forall>st'. indexBatch_commit deleted st = Inr st' \<longrightarrow> pending_inv st' \<and> worker_inv st'"
    using inv_frame [OF i] indexBatch_commit_frame by blast
  show "\<forall>st'. pending st' = pending st \<and> queues st' = queues st \<and> draining st' = draining st \<longrightarrow>
          pending_inv st' \<and> worker_inv st'"
    using inv_frame [OF i] by blast
  show "\<forall>dq st'. draining st = Some dq \<and> indexBatch_finish dq st = Inr st' \<longrightarrow>
          pending_inv st' \<and> worker_inv st'"
    using inv_finish [OF i] by blast
  show "\<forall>dq old st'. draining st = Some dq \<and>
          indexBatch init_ok add_ok deleted dq old st = Inr st' \<longrightarrow>
          pending_inv st' \<and> worker_inv st'"
  proof (intro allI impI)
    fix dq old st'
    assume a: "draining st = Some dq \<and> indexBatch init_ok add_ok deleted dq old st = Inr st'"
    then obtain st1 st2 where l: "indexBatch_loop init_ok add_ok deleted old st = Inr st1"
      and c: "indexBatch_commit deleted st1 = Inr st2"
      and f: "indexBatch_finish dq st2 = Inr st'"
      by (auto simp: indexBatch_def split: sum.splits)
    have f1: "pending st1 = pending st \<and> queues st1 = queues st \<and> draining st1 = draining st"
      using l by (rule indexBatch_loop_frame)
    have f2: "pending st2 = pending st1 \<and> queues st2 = queues st1 \<and> draining st2 = draining st1"
      using c by (rule indexBatch_commit_frame)
    from f1 f2 have fr: "pending st2 = pending st \<and> queues st2 = queues st \<and>
        draining st2 = draining st" by simp
    have i2: "pending_inv st2" "worker_inv st2"
      using inv_frame [OF i fr] by simp_all
    have "draining st2 = Some dq" using fr a by simp
    with i2 show "pending_inv st' \<and> worker_inv st'" using f by (rule inv_finish)
  qed
qed

theorem pending_list_invariant_witness:
  "aiq_reachable run_finished \<and> pending run_finished = [5] \<and>
   (\<exists>dq. queues run_finished 5 = Some dq \<and> state dq AND SDQ_S_PENDING \<noteq> 0) \<and>
   queues run_finished 6 = None \<and>
   aiq_reachable run_drained \<and> draining run_drained = Some 5 \<and> pending run_drained = [] \<and>
   (\<exists>dq. queues run_drained 5 = Some dq \<and> state dq AND SDQ_S_PENDING = 0) \<and>
   pending_inv run_drained \<and> worker_inv run_drained \<and>
   indexBatch (\<lambda>k. True) (\<lambda>k. True) False 5 [(101, 201)] run_resubmitted = Inr run_finished \<and>
   pending_inv run_finished \<and> worker_inv run_finished"
proof -
  have q: "queues run_finished 6 = None"
    by (simp add: run_finished_def run_drained_def run_looped_def run_resubmitted_def
      AIQ_Submit_def run_selected_def
      run_submitted_def aiq_start_def example_keystore_def
      rm_calloc_rid_def RedisModule_RetainString_def SpecDocQueue_Create_def dictAdd_def
      dictFind_def dictSize_def key_bytes_def SDQ_S_PENDING_def SDQ_S_PROCESSING_def Let_def)
  have d: "pending_inv run_drained" "worker_inv run_drained"
    using pending_list_invariant [of run_drained] run_drained_reachable by simp_all
  have f: "pending_inv run_finished \<and> worker_inv run_finished"
    using pending_list_invariant [of run_drained 5 0 101 "\<lambda>k. True" "\<lambda>k. True" False] d
      run_drained_fields(2) run_finished_finish by blast
  have p: "pending run_finished = [5]"
    and e: "\<exists>dq. queues run_finished 5 = Some dq \<and> state dq AND SDQ_S_PENDING \<noteq> 0"
    by (simp_all add: run_finished_def flags_consts)
  have g: "\<exists>dq. queues run_drained 5 = Some dq \<and> state dq AND SDQ_S_PENDING = 0"
    by (simp add: run_drained_fields flags_consts)
  from run_reachable p e q run_drained_reachable run_drained_fields(1,2) g d run_indexBatch f
  show ?thesis by simp
qed

text \<open>
  Claim C7. Submitting, for a spec whose queue exists, a live key string whose bytes are
  the key of an entry of the live dict changes nothing but the allocator: no signal is
  sent, the queue with its dict and state is as before, and so are the pending array, the
  set of live records (the new record is freed) and the key strings with their reference
  counts (the reference taken is released). With unique keys the dict holds exactly one
  entry for the key.
\<close>

theorem Submit_duplicate_key_dropped:
  assumes q: "queues st sp = Some dq"
    and k: "kstrs st k = Some (b, n)" and n: "0 < n"
    and dup: "dictFind (kstrs st) (entries dq) k \<noteq> []"
    and uniq: "dict_ok (kstrs st) (entries dq)"
    and fresh: "rids st (next_rid st) = None"
  shows "AIQ_Submit sp attrs k st = (False, st\<lparr>next_rid := Suc (next_rid st)\<rparr>) \<and>
     queues (snd (AIQ_Submit sp attrs k st)) sp = Some dq \<and>
     length (dictFind (kstrs (snd (AIQ_Submit sp attrs k st))) (entries dq) k) = 1 \<and>
     pending (snd (AIQ_Submit sp attrs k st)) = pending st \<and>
     rids (snd (AIQ_Submit sp attrs k st)) = rids st \<and>
     kstrs (snd (AIQ_Submit sp attrs k st)) = kstrs st"
proof -
  have f: "dictFind ((kstrs st)(k \<mapsto> (b, Suc n))) (entries dq) k \<noteq> []"
    using dup dictFind_retain [OF k] by simp
  have r: "(rids st)(next_rid st := None) = rids st"
    using fresh by (simp add: fun_upd_idem)
  have s: "(kstrs st)(k \<mapsto> (b, n)) = kstrs st"
    using k by (simp add: fun_upd_idem)
  have run: "AIQ_Submit sp attrs k st = (False, st\<lparr>next_rid := Suc (next_rid st)\<rparr>)"
    using n by (simp add: AIQ_Submit_def rm_calloc_rid_def RedisModule_RetainString_def k q
        dictAdd_def f RedisModule_FreeString_def rm_free_rid_def r s Let_def)
  have "length (dictFind (kstrs st) (entries dq) k) \<le> 1"
    using uniq unfolding dict_ok_def dictFind_def by (rule filter_distinct_le1)
  with dup have one: "length (dictFind (kstrs st) (entries dq) k) = 1"
    by (cases "dictFind (kstrs st) (entries dq) k") simp_all
  show ?thesis
    by (simp add: run q one)
qed

theorem Submit_duplicate_key_dropped_witness:
  "queues two_specs 1 = Some \<lparr>spec = 1, entries = [(101, 201), (102, 202), (103, 203),
       (104, 204), (105, 205)], state = SDQ_S_PENDING, nactive = 0\<rparr> \<and>
   kstrs two_specs 107 = Some (''doc1'', 1) \<and>
   dictFind (kstrs two_specs) [(101, 201), (102, 202), (103, 203), (104, 204), (105, 205)] 107
     = [(101, 201)] \<and>
   dict_ok (kstrs two_specs) [(101, 201), (102, 202), (103, 203), (104, 204), (105, 205)] \<and>
   rids two_specs (next_rid two_specs) = None \<and>
   AIQ_Submit 1 0 107 two_specs = (False, two_specs\<lparr>next_rid := 208\<rparr>)"
proof -
  have q: "queues two_specs 1 = Some \<lparr>spec = 1, entries = [(101, 201), (102, 202), (103, 203),
       (104, 204), (105, 205)], state = SDQ_S_PENDING, nactive = 0\<rparr>"
    by (simp add: two_specs_def)
  have k: "kstrs two_specs 107 = Some (''doc1'', 1)"
    by (simp add: two_specs_def example_keystore_def)
  have d: "dictFind (kstrs two_specs) [(101, 201), (102, 202), (103, 203), (104, 204), (105, 205)] 107
     = [(101, 201)]"
    by (simp add: two_specs_def example_keystore_def dictFind_def key_bytes_def)
  have u: "dict_ok (kstrs two_specs) [(101, 201), (102, 202), (103, 203), (104, 204), (105, 205)]"
    by (simp add: two_specs_def example_keystore_def dict_ok_def key_bytes_def)
  have f: "rids two_specs (next_rid two_specs) = None"
    by (simp add: two_specs_def)
  have n: "next_rid two_specs = 207" by (simp add: two_specs_def)
  show ?thesis
    using q k d u f
      Submit_duplicate_key_dropped [of two_specs 1 _ 107 "''doc1''" 1 0, OF q k]
    by (simp add: n)
qed

end
